theory Spec2Isabelle
  imports Main "HOL-Library.AList"
begin

section \<open>JavaScript values the two services are built from\<close>

subsection \<open>Exceptions and computations that may raise\<close>

text \<open>
  A JavaScript call either returns or raises, and what it has written to the heap before
  raising stays written. A call is therefore modelled as a function from the state before
  to an outcome together with the state after: \<open>Inl e\<close> when \<open>e\<close> was raised, \<open>Inr v\<close>
  when \<open>v\<close> was returned. \<open>TypeError\<close> is what the runtime raises on a method call on
  \<open>undefined\<close> (the non-null assertions \<open>x!\<close> of TypeScript are erased at run time);
  \<open>Thrown\<close> is any value raised by a callback or by the transport.
\<close>

datatype exn = TypeError | Thrown string

type_synonym ('r, 's) js = "'s \<Rightarrow> (exn + 'r) \<times> 's"

definition try_catch :: "('r, 's) js \<Rightarrow> (exn \<Rightarrow> ('r, 's) js) \<Rightarrow> ('r, 's) js" where
  "try_catch body handler s =
     (case body s of
        (Inl error, s') \<Rightarrow> handler error s'
      | (Inr v, s') \<Rightarrow> (Inr v, s'))"

text \<open>
  \<open>forEach\<close> of \<open>Set\<close> and \<open>Map\<close>: the elements in insertion order; a raise in the
  body ends the iteration and is passed on to the caller.
\<close>

fun forEach :: "('x \<Rightarrow> (unit, 's) js) \<Rightarrow> 'x list \<Rightarrow> (unit, 's) js" where
  "forEach f [] s = (Inr (), s)"
| "forEach f (x # xs) s =
     (case f x s of
        (Inl error, s') \<Rightarrow> (Inl error, s')
      | (Inr u, s') \<Rightarrow> forEach f xs s')"

subsection \<open>Map and Set\<close>

text \<open>
  A \<open>Map\<close> keeps its entries in insertion order: \<open>set\<close> on a present key replaces the
  value in place, on an absent key it appends; \<open>keys()\<close> lists the keys in that order.
  A \<open>Set\<close> keeps its elements in insertion order and \<open>add\<close> of a present element does
  nothing. Elements of the sets are function references, compared by identity.
  On the lists that stand for them, \<open>get\<close> reads the first entry of a key and \<open>delete\<close>
  removes every entry of the key or every occurrence of the element.
\<close>

type_synonym ('k, 'v) js_map = "('k \<times> 'v) list"

definition map_has :: "('k, 'v) js_map \<Rightarrow> 'k \<Rightarrow> bool" where
  "map_has m k = (map_of m k \<noteq> None)"

definition map_get :: "('k, 'v) js_map \<Rightarrow> 'k \<Rightarrow> 'v option" where
  "map_get m k = map_of m k"

definition map_set :: "('k, 'v) js_map \<Rightarrow> 'k \<Rightarrow> 'v \<Rightarrow> ('k, 'v) js_map" where
  "map_set m k v = AList.update k v m"

definition map_delete :: "('k, 'v) js_map \<Rightarrow> 'k \<Rightarrow> ('k, 'v) js_map" where
  "map_delete m k = AList.delete k m"

definition map_keys :: "('k, 'v) js_map \<Rightarrow> 'k list" where
  "map_keys m = map fst m"

definition set_add :: "'x list \<Rightarrow> 'x \<Rightarrow> 'x list" where
  "set_add xs x = (if x \<in> set xs then xs else xs @ [x])"

definition set_delete :: "'x list \<Rightarrow> 'x \<Rightarrow> 'x list" where
  "set_delete xs x = removeAll x xs"

definition set_size :: "'x list \<Rightarrow> nat" where
  "set_size xs = length xs"

subsection \<open>Callbacks, the console and what a dispatch leaves behind\<close>

text \<open>
  A callback is a function object: \<open>fref\<close> is its reference, the identity by which a
  \<open>Set\<close> and \<open>removeEventListener\<close> compare it. What the function does when called is
  given by the table \<open>fns\<close>: from its argument and the state \<open>'w\<close> of the program
  outside the service it either returns or raises, and leaves a new outside state.
  The model covers callbacks that do not call back into the service that is dispatching
  to them and do not write to the argument they are handed (\<open>emit\<close> hands one envelope
  object to all the listeners of a dispatch).

  \<open>env\<close> is everything a dispatch can touch outside the service: that outside state,
  the record \<open>calls\<close> of every callback invocation with its argument, in order, and the
  lines written with \<open>console.error\<close> (the message and the error object).
\<close>

type_synonym fref = nat

type_synonym ('p, 'w) callbacks = "fref \<Rightarrow> 'p \<Rightarrow> (unit, 'w) js"

record ('p, 'w) env =
  world :: 'w
  calls :: "(fref \<times> 'p) list"
  console :: "(string \<times> exn) list"

definition call :: "('p, 'w) callbacks \<Rightarrow> fref \<Rightarrow> 'p \<Rightarrow> (unit, ('p, 'w) env) js" where
  "call fns f arg e =
     (case fns f arg (world e) of
        (r, w') \<Rightarrow> (r, e\<lparr>world := w', calls := calls e @ [(f, arg)]\<rparr>))"

definition console_error :: "string \<Rightarrow> exn \<Rightarrow> (unit, ('p, 'w) env) js" where
  "console_error msg error e = (Inr (), e\<lparr>console := console e @ [(msg, error)]\<rparr>)"

text \<open>A name between double quotes, as the messages of the two services show it.\<close>

definition quoted :: "string \<Rightarrow> string" where
  "quoted s = [CHR 0x22] @ s @ [CHR 0x22]"

section \<open>EventService\<close>

text \<open>\<open>EventPayload\<close>: the envelope a listener receives.\<close>

record 'a EventPayload =
  type :: string
  data :: 'a

text \<open>The one field of the class: \<open>listeners: Map<string, Set<EventListener>>\<close>.\<close>

record EventService =
  listeners :: "(string, fref list) js_map"

definition new_EventService :: EventService where
  "new_EventService = \<lparr>listeners = []\<rparr>"

definition emit ::
  "('a EventPayload, 'w) callbacks \<Rightarrow> EventService \<Rightarrow> string \<Rightarrow> 'a
     \<Rightarrow> (unit, ('a EventPayload, 'w) env) js" where
  "emit fns this eventType d =
     (case map_get (listeners this) eventType of
        None \<Rightarrow> (\<lambda>e. (Inr (), e))
      | Some eventListeners \<Rightarrow>
          (let payload = \<lparr>type = eventType, data = d\<rparr> in
           forEach (\<lambda>listener.
             try_catch (call fns listener payload)
               (\<lambda>error. console_error
                  (''Error in event listener for '' @ quoted eventType @ '':'') error))
             eventListeners))"

definition on :: "string \<Rightarrow> fref \<Rightarrow> (unit, EventService) js" where
  "on eventType listener this =
     (let this1 = (if \<not> map_has (listeners this) eventType
                   then this\<lparr>listeners := map_set (listeners this) eventType []\<rparr>
                   else this)
      in case map_get (listeners this1) eventType of
           None \<Rightarrow> (Inl TypeError, this1)
         | Some s \<Rightarrow>
             (Inr (), this1\<lparr>listeners :=
                map_set (listeners this1) eventType (set_add s listener)\<rparr>))"

definition off :: "string \<Rightarrow> fref \<Rightarrow> (unit, EventService) js" where
  "off eventType listener this =
     (case map_get (listeners this) eventType of
        None \<Rightarrow> (Inr (), this)
      | Some eventListeners \<Rightarrow>
          (let eventListeners' = set_delete eventListeners listener;
               this1 = this\<lparr>listeners := map_set (listeners this) eventType eventListeners'\<rparr>
           in if set_size eventListeners' = 0
              then (Inr (), this1\<lparr>listeners := map_delete (listeners this1) eventType\<rparr>)
              else (Inr (), this1)))"

definition clear :: "string \<Rightarrow> (unit, EventService) js" where
  "clear eventType this = (Inr (), this\<lparr>listeners := map_delete (listeners this) eventType\<rparr>)"

definition clearAll :: "(unit, EventService) js" where
  "clearAll this = (Inr (), this\<lparr>listeners := []\<rparr>)"

definition listenerCount :: "EventService \<Rightarrow> string \<Rightarrow> nat" where
  "listenerCount this eventType =
     (case map_get (listeners this) eventType of
        None \<Rightarrow> 0
      | Some s \<Rightarrow> (if set_size s = 0 then 0 else set_size s))"

definition eventTypes :: "EventService \<Rightarrow> string list" where
  "eventTypes this = map_keys (listeners this)"

text \<open>
  Calls made on one instance, one after the other, from the state \<open>new EventService()\<close>.
  \<open>emit\<close> reads the registry and leaves it as it is; what it does is in the \<open>env\<close>.
\<close>

datatype 'a event_call =
    On string fref
  | Off string fref
  | Emit string 'a
  | Clear string
  | ClearAll

fun event_step ::
  "('a EventPayload, 'w) callbacks \<Rightarrow> 'a event_call
     \<Rightarrow> EventService \<times> ('a EventPayload, 'w) env \<Rightarrow> EventService \<times> ('a EventPayload, 'w) env" where
  "event_step fns (On n l) (this, e) = (snd (on n l this), e)"
| "event_step fns (Off n l) (this, e) = (snd (off n l this), e)"
| "event_step fns (Emit n d) (this, e) = (this, snd (emit fns this n d e))"
| "event_step fns (Clear n) (this, e) = (snd (clear n this), e)"
| "event_step fns ClearAll (this, e) = (snd (clearAll this), e)"

definition event_run ::
  "('a EventPayload, 'w) callbacks \<Rightarrow> 'a event_call list
     \<Rightarrow> EventService \<times> ('a EventPayload, 'w) env \<Rightarrow> EventService \<times> ('a EventPayload, 'w) env" where
  "event_run fns cs st = fold (event_step fns) cs st"

text \<open>The listeners registered for a name, in the order \<open>emit\<close> visits them.\<close>

definition registered :: "EventService \<Rightarrow> string \<Rightarrow> fref list" where
  "registered this eventType =
     (case map_get (listeners this) eventType of None \<Rightarrow> [] | Some s \<Rightarrow> s)"

text \<open>The calls a dispatch has added to the record of calls it started from.\<close>

definition new_calls :: "('p, 'w) env \<Rightarrow> ('p, 'w) env \<Rightarrow> (fref \<times> 'p) list" where
  "new_calls before after = drop (length (calls before)) (calls after)"

definition new_console :: "('p, 'w) env \<Rightarrow> ('p, 'w) env \<Rightarrow> (string \<times> exn) list" where
  "new_console before after = drop (length (console before)) (console after)"

section \<open>BroadcastService\<close>

subsection \<open>The transport\<close>

text \<open>
  \<open>BroadcastChannel\<close> belongs to the platform. The service uses its constructor,
  \<open>addEventListener\<close>, \<open>removeEventListener\<close>, \<open>postMessage\<close> and \<open>close\<close>. A handle is
  modelled by its name and its list of registered message listeners (an event target
  ignores the registration of a listener it already has). The constructor and the two
  listener methods do not raise. \<open>postMessage\<close> may: what it does is a parameter
  \<open>post\<close> of the model, any function of the handle, the data and the outside state.
  The service drops every handle it closes, so a closed handle is never used again and
  carries no flag.

  A message listener is the closure \<open>messageHandler\<close> that \<open>subscribe\<close> creates. It holds
  the \<open>callback\<close> and the \<open>channelName\<close> of that call; \<open>h_id\<close> is its identity, the
  number of the call of \<open>subscribe\<close> that created it.
\<close>

record adapter =
  h_id :: nat
  h_callback :: fref
  h_channelName :: string

record BroadcastChannel =
  bc_name :: string
  bc_listeners :: "adapter list"

definition new_BroadcastChannel :: "string \<Rightarrow> BroadcastChannel" where
  "new_BroadcastChannel n = \<lparr>bc_name = n, bc_listeners = []\<rparr>"

definition addEventListener :: "BroadcastChannel \<Rightarrow> adapter \<Rightarrow> BroadcastChannel" where
  "addEventListener ch h = ch\<lparr>bc_listeners := set_add (bc_listeners ch) h\<rparr>"

definition removeEventListener :: "BroadcastChannel \<Rightarrow> adapter \<Rightarrow> BroadcastChannel" where
  "removeEventListener ch h = ch\<lparr>bc_listeners := set_delete (bc_listeners ch) h\<rparr>"

type_synonym ('a, 'w) transport = "BroadcastChannel \<Rightarrow> 'a option \<Rightarrow> (unit, 'w) js"

definition postMessage ::
  "('a, 'w) transport \<Rightarrow> BroadcastChannel \<Rightarrow> 'a option \<Rightarrow> (unit, ('p, 'w) env) js" where
  "postMessage post ch d e =
     (case post ch d (world e) of (r, w') \<Rightarrow> (r, e\<lparr>world := w'\<rparr>))"

subsection \<open>The class\<close>

text \<open>
  The fields \<open>channels\<close>, \<open>listeners\<close> (here \<open>chan_listeners\<close>, the name \<open>listeners\<close>
  being the field of \<open>EventService\<close>) and \<open>listenerIdCounter\<close>.

  The counter starts at \<open>0\<close> and only \<open>++\<close> changes it. It is a JavaScript number: \<open>++\<close>
  adds one exactly as long as the number is below \<open>2^53\<close>, and on \<open>2^53\<close> it gives
  \<open>2^53\<close> again. The field of the model holds how many times \<open>++\<close> has been applied, and
  \<open>counter_value\<close> of that is the number the code holds: the same up to \<open>2^53\<close>, and
  \<open>2^53\<close> from there on.
\<close>

record BroadcastService =
  channels :: "(string, BroadcastChannel) js_map"
  chan_listeners :: "(string, (string, adapter) js_map) js_map"
  listenerIdCounter :: nat

definition new_BroadcastService :: BroadcastService where
  "new_BroadcastService = \<lparr>channels = [], chan_listeners = [], listenerIdCounter = 0\<rparr>"

definition counter_value :: "nat \<Rightarrow> nat" where
  "counter_value k = min k (2 ^ 53)"

text \<open>
  A natural number in a template literal: its decimal digits (the form JavaScript prints
  below \<open>10^21\<close>, which no value of the counter reaches).
\<close>

definition digit :: "nat \<Rightarrow> char" where
  "digit d = ''0123456789'' ! d"

fun nat_to_string :: "nat \<Rightarrow> string" where
  "nat_to_string n =
     (if n < 10 then [digit n] else nat_to_string (n div 10) @ [digit (n mod 10)])"

declare nat_to_string.simps [simp del]

definition subscribe :: "string \<Rightarrow> fref \<Rightarrow> (string, BroadcastService) js" where
  "subscribe channelName callback this =
     (let this1 = (if \<not> map_has (channels this) channelName
                   then this\<lparr>channels :=
                               map_set (channels this) channelName (new_BroadcastChannel channelName),
                             chan_listeners :=
                               map_set (chan_listeners this) channelName []\<rparr>
                   else this);
          n = listenerIdCounter this1 + 1;
          this2 = this1\<lparr>listenerIdCounter := n\<rparr>;
          listenerId = ''listener_'' @ nat_to_string (counter_value n);
          handler = \<lparr>h_id = n, h_callback = callback, h_channelName = channelName\<rparr>
      in case map_get (channels this2) channelName of
           None \<Rightarrow> (Inl TypeError, this2)
         | Some channel \<Rightarrow>
             (let this3 = this2\<lparr>channels :=
                            map_set (channels this2) channelName (addEventListener channel handler)\<rparr>
              in case map_get (chan_listeners this3) channelName of
                   None \<Rightarrow> (Inl TypeError, this3)
                 | Some ls \<Rightarrow>
                     (Inr listenerId,
                      this3\<lparr>chan_listeners :=
                        map_set (chan_listeners this3) channelName (map_set ls listenerId handler)\<rparr>)))"

definition unsubscribe :: "string \<Rightarrow> string \<Rightarrow> (unit, BroadcastService) js" where
  "unsubscribe channelName listenerId this =
     (case (map_get (channels this) channelName, map_get (chan_listeners this) channelName) of
        (Some channel, Some ls) \<Rightarrow>
          (case map_get ls listenerId of
             Some handler \<Rightarrow>
               (Inr (),
                this\<lparr>channels :=
                       map_set (channels this) channelName (removeEventListener channel handler),
                     chan_listeners :=
                       map_set (chan_listeners this) channelName (map_delete ls listenerId)\<rparr>)
           | None \<Rightarrow> (Inr (), this))
      | _ \<Rightarrow> (Inr (), this))"

definition broadcast ::
  "('a, 'w) transport \<Rightarrow> string \<Rightarrow> 'a option
     \<Rightarrow> (unit, BroadcastService \<times> ('p, 'w) env) js" where
  "broadcast post channelName d st =
     (case st of (this, e) \<Rightarrow>
        (let this1 = (if \<not> map_has (channels this) channelName
                      then this\<lparr>channels :=
                             map_set (channels this) channelName (new_BroadcastChannel channelName)\<rparr>
                      else this)
         in case try_catch
                   (case map_get (channels this1) channelName of
                      None \<Rightarrow> (\<lambda>e. (Inl TypeError, e))
                    | Some channel \<Rightarrow> postMessage post channel d)
                   (\<lambda>error. console_error
                      (''Error broadcasting to '' @ quoted channelName @ '':'') error)
                   e of
              (r, e') \<Rightarrow> (r, (this1, e'))))"

text \<open>
  \<open>close\<close> unregisters every adapter from the handle and closes the handle, then deletes
  both entries; the handle is not reachable afterwards, so only the deletions show.
\<close>

definition close :: "string \<Rightarrow> (unit, BroadcastService) js" where
  "close channelName this =
     (case (map_get (channels this) channelName, map_get (chan_listeners this) channelName) of
        (Some channel, Some ls) \<Rightarrow>
          (Inr (),
           this\<lparr>channels := map_delete (channels this) channelName,
                chan_listeners := map_delete (chan_listeners this) channelName\<rparr>)
      | _ \<Rightarrow> (Inr (), this))"

definition closeAll :: "(unit, BroadcastService) js" where
  "closeAll this = (Inr (), this\<lparr>channels := [], chan_listeners := []\<rparr>)"

definition getActiveChannels :: "BroadcastService \<Rightarrow> string list" where
  "getActiveChannels this = map_keys (channels this)"

definition isChannelActive :: "BroadcastService \<Rightarrow> string \<Rightarrow> bool" where
  "isChannelActive this channelName = map_has (channels this) channelName"

text \<open>
  The body of the closure \<open>messageHandler\<close>, called by the transport with the data of a
  message event.
\<close>

definition messageHandler ::
  "('a, 'w) callbacks \<Rightarrow> adapter \<Rightarrow> 'a \<Rightarrow> (unit, ('a, 'w) env) js" where
  "messageHandler fns h d =
     try_catch (call fns (h_callback h) d)
       (\<lambda>error. console_error
          (''Error in broadcast callback for '' @ quoted (h_channelName h) @ '':'') error)"

text \<open>
  The delivery of one message to a handle: the transport calls the registered message
  listeners in the order of their registration. This transport is the strictest one: a
  listener that raised would end the delivery.
\<close>

definition deliver ::
  "('a, 'w) callbacks \<Rightarrow> BroadcastChannel \<Rightarrow> 'a \<Rightarrow> (unit, ('a, 'w) env) js" where
  "deliver fns ch d = forEach (\<lambda>h. messageHandler fns h d) (bc_listeners ch)"

text \<open>
  Calls made on one instance, one after the other, with what each returned or raised.
\<close>

datatype 'a broadcast_call =
    Subscribe string fref
  | Unsubscribe string string
  | Broadcast string "'a option"
  | Close string
  | CloseAll

datatype returned = Void | ListenerId string

definition void :: "(exn + unit) \<times> 's \<Rightarrow> (exn + returned) \<times> 's" where
  "void r = (map_sum id (\<lambda>u. Void) (fst r), snd r)"

fun broadcast_step ::
  "('a, 'w) transport \<Rightarrow> 'a broadcast_call
     \<Rightarrow> (returned, BroadcastService \<times> ('p, 'w) env) js" where
  "broadcast_step post (Subscribe c cb) (this, e) =
     (case subscribe c cb this of (r, this') \<Rightarrow> (map_sum id ListenerId r, (this', e)))"
| "broadcast_step post (Unsubscribe c i) (this, e) =
     (case unsubscribe c i this of (r, this') \<Rightarrow> void (r, (this', e)))"
| "broadcast_step post (Broadcast c d) (this, e) = void (broadcast post c d (this, e))"
| "broadcast_step post (Close c) (this, e) =
     (case close c this of (r, this') \<Rightarrow> void (r, (this', e)))"
| "broadcast_step post CloseAll (this, e) =
     (case closeAll this of (r, this') \<Rightarrow> void (r, (this', e)))"

fun broadcast_run ::
  "('a, 'w) transport \<Rightarrow> 'a broadcast_call list \<Rightarrow> BroadcastService \<times> ('p, 'w) env
     \<Rightarrow> (exn + returned) list \<times> (BroadcastService \<times> ('p, 'w) env)" where
  "broadcast_run post [] st = ([], st)"
| "broadcast_run post (c # cs) st =
     (case broadcast_step post c st of
        (r, st') \<Rightarrow> (case broadcast_run post cs st' of (rs, st'') \<Rightarrow> (r # rs, st'')))"

fun returned_ids :: "(exn + returned) list \<Rightarrow> string list" where
  "returned_ids [] = []"
| "returned_ids (Inr (ListenerId i) # rs) = i # returned_ids rs"
| "returned_ids (r # rs) = returned_ids rs"

section \<open>Predicates and sample inputs used by the statements\<close>

text \<open>
  The shape of a registry that \<open>EventService\<close> can be in: no name is kept with an empty
  set, and a set holds a listener once.
\<close>

definition registry_ok :: "EventService \<Rightarrow> bool" where
  "registry_ok this = (\<forall>(n, s) \<in> set (listeners this). s \<noteq> [] \<and> distinct s)"

text \<open>
  The first statement of \<open>broadcast\<close>: the handle of a channel that has none is opened.
\<close>

definition opened :: "BroadcastService \<Rightarrow> string \<Rightarrow> BroadcastService" where
  "opened this c =
     (if \<not> map_has (channels this) c
      then this\<lparr>channels := map_set (channels this) c (new_BroadcastChannel c)\<rparr>
      else this)"

text \<open>The adapters registered for a channel, by listener id.\<close>

definition adapters_of :: "BroadcastService \<Rightarrow> string \<Rightarrow> (string, adapter) js_map" where
  "adapters_of this channelName =
     (case map_get (chan_listeners this) channelName of None \<Rightarrow> [] | Some ls \<Rightarrow> ls)"

text \<open>The id made from a value of the counter.\<close>

definition listener_id :: "nat \<Rightarrow> string" where
  "listener_id n = ''listener_'' @ nat_to_string n"

text \<open>The number of calls of \<open>subscribe\<close> in a sequence of calls.\<close>

fun is_subscribe :: "'a broadcast_call \<Rightarrow> bool" where
  "is_subscribe (Subscribe c cb) = True"
| "is_subscribe bc = False"

definition subscribes :: "'a broadcast_call list \<Rightarrow> nat" where
  "subscribes cs = length (filter is_subscribe cs)"

text \<open>
  \<open>keys_ok\<close>: every channel with an entry in the map of adapters has a handle.
  \<open>handle_only\<close>: the channel has a handle and no entry in the map of adapters.
\<close>

definition keys_ok :: "BroadcastService \<Rightarrow> bool" where
  "keys_ok this = (set (map_keys (chan_listeners this)) \<subseteq> set (map_keys (channels this)))"

definition handle_only :: "BroadcastService \<Rightarrow> string \<Rightarrow> bool" where
  "handle_only this c = (map_has (channels this) c \<and> \<not> map_has (chan_listeners this) c)"

text \<open>
  For the examples. Callbacks: the function with reference \<open>2\<close> raises, every other one
  returns and adds one to a counter outside the service. An environment with an empty
  record of calls and an empty console. A transport whose \<open>postMessage\<close> raises on the
  data \<open>0\<close> and sends everything else. A sequence of calls on a \<open>BroadcastService\<close>, a
  \<open>BroadcastService\<close> with two channels and three listeners, and an \<open>EventService\<close> with
  two listeners for one name.
\<close>

definition sample_fns :: "('p, nat) callbacks" where
  "sample_fns f arg w = (if f = 2 then (Inl (Thrown ''boom''), w) else (Inr (), w + 1))"

definition sample_env :: "('p, nat) env" where
  "sample_env = \<lparr>world = 0, calls = [], console = []\<rparr>"

definition sample_post :: "(int, nat) transport" where
  "sample_post ch d w =
     (if d = Some 0 then (Inl (Thrown ''DataCloneError''), w) else (Inr (), w + 1))"

definition sample_calls :: "int broadcast_call list" where
  "sample_calls =
     [Subscribe ''c'' 2, Subscribe ''c'' 2, Subscribe ''d'' 3, Unsubscribe ''c'' ''listener_1'',
      Broadcast ''e'' None, Close ''c'', Subscribe ''c'' 2]"

definition sample_service :: BroadcastService where
  "sample_service =
     fst (snd (broadcast_run sample_post [Subscribe ''c'' 2, Subscribe ''c'' 3, Subscribe ''d'' 4]
       (new_BroadcastService, sample_env :: (int, nat) env)))"

definition sample_registry :: EventService where
  "sample_registry =
     fst (event_run sample_fns [On ''x'' 2, On ''x'' 3 :: int event_call]
            (new_EventService, sample_env))"

section \<open>Facts about the containers and the dispatch loop\<close>

lemma set_update_subset: "set (AList.update k v m) \<subseteq> insert (k, v) (set m)"
  by (induction m) auto

lemma set_delete_subset: "set (AList.delete k m) \<subseteq> set m"
  by (auto simp: AList.delete_eq)

lemma map_get_in_set: "map_get m k = Some v \<Longrightarrow> (k, v) \<in> set m"
  by (simp add: map_get_def map_of_SomeD)

lemma map_get_None_iff: "map_get m k = None \<longleftrightarrow> k \<notin> set (map_keys m)"
  by (simp add: map_get_def map_keys_def map_of_eq_None_iff)

lemma map_get_set_same: "map_get (map_set m k v) k = Some v"
  by (simp add: map_get_def map_set_def update_conv')

lemma map_get_set_other: "k' \<noteq> k \<Longrightarrow> map_get (map_set m k v) k' = map_get m k'"
  by (simp add: map_get_def map_set_def update_conv')

lemma map_get_delete_same: "map_get (map_delete m k) k = None"
  by (simp add: map_get_def map_delete_def delete_conv')

lemma map_get_delete_other: "k' \<noteq> k \<Longrightarrow> map_get (map_delete m k) k' = map_get m k'"
  by (simp add: map_get_def map_delete_def)

lemma map_set_same_value: "map_get m k = Some v \<Longrightarrow> map_set m k v = m"
  by (simp add: map_get_def map_set_def update_triv)

lemma map_set_twice: "map_set (map_set m k v) k v' = map_set m k v'"
  by (simp add: map_set_def)

lemma map_has_get: "map_has m k \<longleftrightarrow> map_get m k \<noteq> None"
  by (simp add: map_has_def map_get_def)

lemma keys_map_set_present: "map_has m k \<Longrightarrow> map_keys (map_set m k v) = map_keys m"
  by (auto simp: map_has_def map_keys_def map_set_def update_keys map_of_eq_None_iff)

lemma keys_map_set_absent: "\<not> map_has m k \<Longrightarrow> map_keys (map_set m k v) = map_keys m @ [k]"
  by (auto simp: map_has_def map_keys_def map_set_def update_keys map_of_eq_None_iff)

lemma set_keys_map_set: "set (map_keys (map_set m k v)) = insert k (set (map_keys m))"
  by (auto simp: map_keys_def map_set_def update_keys)

lemma set_keys_map_delete: "set (map_keys (map_delete m k)) = set (map_keys m) - {k}"
  by (auto simp: map_keys_def map_delete_def delete_keys)

lemma map_has_keys: "map_has m k \<longleftrightarrow> k \<in> set (map_keys m)"
  by (simp add: map_has_get map_get_None_iff)

lemma guarded_call:
  "try_catch (call fns l p) (\<lambda>error. console_error m error) e = (r, e') \<Longrightarrow>
     r = Inr () \<and> calls e' = calls e @ [(l, p)]"
  by (auto simp: try_catch_def call_def console_error_def split: prod.splits sum.splits)

lemma forEach_guarded:
  "fst (forEach (\<lambda>l. try_catch (call fns l p) (\<lambda>error. console_error m error)) ls e) = Inr () \<and>
   calls (snd (forEach (\<lambda>l. try_catch (call fns l p) (\<lambda>error. console_error m error)) ls e))
     = calls e @ map (\<lambda>l. (l, p)) ls"
proof (induction ls arbitrary: e)
  case Nil
  show ?case by simp
next
  case (Cons l ls)
  obtain r e' where step: "try_catch (call fns l p) (\<lambda>error. console_error m error) e = (r, e')"
    by (cases "try_catch (call fns l p) (\<lambda>error. console_error m error) e")
  from guarded_call [OF step] have r: "r = Inr ()" and c: "calls e' = calls e @ [(l, p)]"
    by simp_all
  show ?case using Cons.IH [of e'] by (simp add: step r c)
qed

text \<open>Equations that evaluate the calls of a \<open>BroadcastService\<close> in the examples.\<close>

lemma nat_to_string_digit: "n < 10 \<Longrightarrow> nat_to_string n = [digit n]"
  by (simp add: nat_to_string.simps)

lemmas broadcast_eval =
  subscribe_def unsubscribe_def broadcast_def close_def
  closeAll_def void_def Let_def map_has_def map_get_def map_set_def map_delete_def
  new_BroadcastService_def new_BroadcastChannel_def addEventListener_def
  removeEventListener_def set_add_def set_delete_def counter_value_def nat_to_string_digit
  digit_def try_catch_def postMessage_def console_error_def sample_post_def sample_env_def

section \<open>Properties of EventService\<close>

lemma emit_returns: "fst (emit fns this n d e) = Inr ()"
  by (simp add: emit_def forEach_guarded split: option.splits)

lemma emit_calls:
  "calls (snd (emit fns this n d e)) =
     calls e @ map (\<lambda>l. (l, \<lparr>type = n, data = d\<rparr>)) (registered this n)"
  by (simp add: emit_def registered_def forEach_guarded split: option.splits)

lemma emit_new_calls:
  "new_calls e (snd (emit fns this n d e)) =
     map (\<lambda>l. (l, \<lparr>type = n, data = d\<rparr>)) (registered this n)"
  by (simp add: new_calls_def emit_calls)

lemma on_returns: "fst (on n l this) = Inr ()"
  by (simp add: on_def Let_def map_has_get map_get_set_same split: option.splits)

lemma registered_on_same: "registered (snd (on n l this)) n = set_add (registered this n) l"
  by (auto simp: on_def Let_def registered_def map_has_get map_get_set_same split: option.splits)

lemma registered_on_other: "m \<noteq> n \<Longrightarrow> registered (snd (on n l this)) m = registered this m"
  by (auto simp: on_def Let_def registered_def map_has_get map_get_set_same map_get_set_other
      split: option.splits)

lemma on_registered_again:
  assumes "l \<in> set (registered this n)"
  shows "snd (on n l this) = this"
proof -
  from assms obtain s where s: "map_get (listeners this) n = Some s" and l: "l \<in> set s"
    by (cases "map_get (listeners this) n") (auto simp: registered_def)
  then show ?thesis
    by (simp add: on_def map_has_get set_add_def map_set_same_value)
qed

lemma off_returns: "fst (off n l this) = Inr ()"
  by (simp add: off_def Let_def split: option.splits)

lemma registered_off_same: "registered (snd (off n l this)) n = set_delete (registered this n) l"
  by (auto simp: off_def Let_def registered_def set_size_def set_delete_def
      map_get_set_same map_get_delete_same split: option.splits)

lemma registered_off_other: "m \<noteq> n \<Longrightarrow> registered (snd (off n l this)) m = registered this m"
  by (auto simp: off_def Let_def registered_def map_get_set_other map_get_delete_other
      split: option.splits)

lemma off_last_unlists:
  assumes "registered this n = [l]"
  shows "n \<notin> set (eventTypes (snd (off n l this)))"
proof -
  from assms have "map_get (listeners this) n = Some [l]"
    by (auto simp: registered_def split: option.splits)
  then have "listeners (snd (off n l this)) = map_delete (map_set (listeners this) n []) n"
    by (simp add: off_def Let_def set_delete_def set_size_def)
  then show ?thesis
    by (simp add: eventTypes_def map_get_None_iff [symmetric] map_get_delete_same)
qed

lemma listenerCount_registered: "listenerCount this n = length (registered this n)"
  by (simp add: listenerCount_def registered_def set_size_def split: option.splits)

subsection \<open>The registry invariant\<close>

lemma registry_ok_new: "registry_ok new_EventService"
  by (simp add: registry_ok_def new_EventService_def)

lemma distinct_set_add: "distinct s \<Longrightarrow> distinct (set_add s l)"
  by (simp add: set_add_def)

lemma set_add_nonempty: "set_add s l \<noteq> []"
  by (auto simp: set_add_def)

lemma registry_ok_set:
  "registry_ok this \<Longrightarrow> s \<noteq> [] \<Longrightarrow> distinct s
     \<Longrightarrow> registry_ok (this\<lparr>listeners := map_set (listeners this) n s\<rparr>)"
  using set_update_subset [of n s "listeners this"]
  by (auto simp: registry_ok_def map_set_def)

lemma registry_ok_delete:
  "registry_ok this \<Longrightarrow> registry_ok (this\<lparr>listeners := map_delete (listeners this) n\<rparr>)"
  using set_delete_subset [of n "listeners this"]
  by (auto simp: registry_ok_def map_delete_def)

lemma registry_ok_registered:
  "registry_ok this \<Longrightarrow> distinct (registered this n)"
  by (auto simp: registry_ok_def registered_def dest!: map_get_in_set split: option.splits)

lemma registry_ok_on:
  assumes "registry_ok this" shows "registry_ok (snd (on n l this))"
proof (cases "map_get (listeners this) n")
  case None
  then have "snd (on n l this) = this\<lparr>listeners := map_set (listeners this) n [l]\<rparr>"
    by (simp add: on_def Let_def map_has_get map_get_set_same set_add_def map_set_twice)
  then show ?thesis using registry_ok_set [OF assms, where s = "[l]" and n = n] by simp
next
  case (Some s)
  then have eq: "snd (on n l this) = this\<lparr>listeners := map_set (listeners this) n (set_add s l)\<rparr>"
    by (simp add: on_def map_has_get)
  from Some assms have "distinct s"
    by (auto simp: registry_ok_def dest!: map_get_in_set)
  then show ?thesis
    using registry_ok_set [OF assms set_add_nonempty distinct_set_add, where s1 = s and l1 = l and n = n]
      eq by simp
qed

lemma registry_ok_off:
  assumes "registry_ok this" shows "registry_ok (snd (off n l this))"
proof (cases "map_get (listeners this) n")
  case None
  then show ?thesis using assms by (simp add: off_def)
next
  case (Some s)
  from Some have "(n, s) \<in> set (listeners this)"
    by (rule map_get_in_set)
  with assms have "distinct s"
    by (auto simp: registry_ok_def)
  then have d: "distinct (set_delete s l)"
    by (simp add: set_delete_def distinct_removeAll)
  show ?thesis
  proof (cases "set_delete s l = []")
    case True
    then have "snd (off n l this) = this\<lparr>listeners := map_delete (listeners this) n\<rparr>"
      using Some by (simp add: off_def set_size_def map_delete_def map_set_def delete_update_same)
    then show ?thesis using registry_ok_delete [OF assms] by simp
  next
    case False
    then have "snd (off n l this) = this\<lparr>listeners := map_set (listeners this) n (set_delete s l)\<rparr>"
      using Some by (simp add: off_def set_size_def)
    then show ?thesis using registry_ok_set [OF assms False d] by simp
  qed
qed

lemma registry_ok_step:
  assumes "registry_ok (fst st)"
  shows "registry_ok (fst (event_step fns c st))"
proof (cases st)
  case (Pair this e)
  show ?thesis
  proof (cases c)
    case ClearAll
    then show ?thesis by (simp add: Pair clearAll_def registry_ok_def)
  qed (use assms in \<open>simp_all add: Pair registry_ok_on registry_ok_off registry_ok_delete clear_def\<close>)
qed

lemma registry_ok_run:
  "registry_ok (fst st) \<Longrightarrow> registry_ok (fst (event_run fns cs st))"
  unfolding event_run_def
  by (induction cs arbitrary: st) (simp_all add: registry_ok_step)

lemma registry_ok_reachable:
  "registry_ok (fst (event_run fns cs (new_EventService, e0)))"
  by (rule registry_ok_run) (simp add: registry_ok_new)

lemma off_unregistered:
  assumes "registry_ok this" and "l \<notin> set (registered this n)"
  shows "snd (off n l this) = this"
proof (cases "map_get (listeners this) n")
  case None
  then show ?thesis by (simp add: off_def)
next
  case (Some s)
  with assms have "s \<noteq> []" and "l \<notin> set s"
    by (auto simp: registry_ok_def registered_def dest!: map_get_in_set)
  then show ?thesis using Some
    by (simp add: off_def set_delete_def set_size_def map_set_same_value)
qed

lemma fold_set_add_fresh:
  "distinct L \<Longrightarrow> set L \<inter> set s = {} \<Longrightarrow> fold (\<lambda>l s. set_add s l) L s = s @ L"
  by (induction L arbitrary: s) (auto simp: set_add_def)

lemma run_On_env: "snd (event_run fns (map (On n) L) (this, e)) = e"
  unfolding event_run_def by (induction L arbitrary: this) simp_all

lemma run_On_registered:
  "registered (fst (event_run fns (map (On n) L) (this, e))) n
     = fold (\<lambda>l s. set_add s l) L (registered this n)"
  unfolding event_run_def
  by (induction L arbitrary: this) (simp_all add: registered_on_same)

lemma registered_new: "registered new_EventService n = []"
  by (simp add: registered_def new_EventService_def map_get_def)

lemma count_list_distinct: "distinct xs \<Longrightarrow> x \<in> set xs \<Longrightarrow> count_list xs x = 1"
  by (induction xs) (auto simp: count_list_0_iff)

lemma count_fst_map_pair: "map (fst \<circ> (\<lambda>l. (l, p))) xs = xs"
  by (induction xs) simp_all

lemma registered_clear_same: "registered (snd (clear n this)) n = []"
  by (simp add: clear_def registered_def map_get_delete_same)

lemma registered_clear_other: "m \<noteq> n \<Longrightarrow> registered (snd (clear n this)) m = registered this m"
  by (simp add: clear_def registered_def map_get_delete_other)

lemma registered_clearAll: "registered (snd (clearAll this)) n = []"
  by (simp add: clearAll_def registered_def map_get_def)

lemma unregistered_step:
  assumes "l \<notin> set (registered this n)" and "c \<noteq> On n l"
  shows "l \<notin> set (registered (fst (event_step fns c (this, e))) n)"
proof (cases c)
  case (On m k)
  with assms show ?thesis
    by (cases "m = n") (auto simp: registered_on_same registered_on_other set_add_def)
next
  case (Off m k)
  with assms show ?thesis
    by (cases "m = n") (auto simp: registered_off_same registered_off_other set_delete_def)
next
  case (Emit m d)
  with assms show ?thesis by simp
next
  case (Clear m)
  with assms show ?thesis
    by (cases "m = n") (auto simp: registered_clear_same registered_clear_other)
next
  case ClearAll
  then show ?thesis by (simp add: registered_clearAll)
qed

lemma unregistered_run:
  assumes "l \<notin> set (registered (fst st) n)" and "On n l \<notin> set cs"
  shows "l \<notin> set (registered (fst (event_run fns cs st)) n)"
  using assms unfolding event_run_def
proof (induction cs arbitrary: st)
  case Nil
  then show ?case by simp
next
  case (Cons c cs)
  obtain this e where st: "st = (this, e)" by (cases st)
  from Cons.prems have "l \<notin> set (registered (fst (event_step fns c (this, e))) n)"
    by (intro unregistered_step) (auto simp: st)
  with Cons.IH [of "event_step fns c st"] Cons.prems(2) show ?case
    by (simp add: st)
qed

lemma sample_registry_value: "sample_registry = \<lparr>listeners = [(''x'', [2, 3])]\<rparr>"
  by code_simp

subsection \<open>Registration and dispatch\<close>

text \<open>
  Claim C2. Starting from an empty \<open>EventService\<close>, after \<open>on(n, l)\<close> for each listener
  \<open>l\<close> of a list \<open>L\<close> of pairwise distinct references, \<open>emit(n, p)\<close> returns normally
  and calls exactly the listeners of \<open>L\<close>, each once, each with the envelope
  \<open>{type: n, data: p}\<close>; and \<open>listenerCount(n)\<close> is the number of elements of \<open>L\<close>.
  (Listeners of the model do not call back into the service, which is the claim's
  proviso that no listener changes the registry.)
\<close>

theorem emit_invokes_each_once:
  assumes "distinct L"
  shows "case event_run fns (map (On n) L) (new_EventService, e0) of (this, e) \<Rightarrow>
     fst (emit fns this n p e) = Inr () \<and>
     new_calls e (snd (emit fns this n p e)) = map (\<lambda>l. (l, \<lparr>type = n, data = p\<rparr>)) L \<and>
     (\<forall>l \<in> set L. count_list (map fst (new_calls e (snd (emit fns this n p e)))) l = 1) \<and>
     listenerCount this n = card (set L)"
proof -
  obtain this e where run: "event_run fns (map (On n) L) (new_EventService, e0) = (this, e)"
    by (cases "event_run fns (map (On n) L) (new_EventService, e0)")
  have "registered this n = fold (\<lambda>l s. set_add s l) L (registered new_EventService n)"
    using run_On_registered [of fns n L new_EventService e0] by (simp add: run)
  with assms have reg: "registered this n = L"
    by (simp add: registered_new fold_set_add_fresh)
  have c: "new_calls e (snd (emit fns this n p e)) = map (\<lambda>l. (l, \<lparr>type = n, data = p\<rparr>)) L"
    by (simp add: emit_new_calls reg)
  have "\<forall>l \<in> set L. count_list (map fst (new_calls e (snd (emit fns this n p e)))) l = 1"
    using assms by (simp add: c count_fst_map_pair count_list_distinct)
  moreover have "listenerCount this n = card (set L)"
    using assms by (simp add: listenerCount_registered reg distinct_card)
  ultimately show ?thesis
    by (simp add: run emit_returns c)
qed

theorem emit_invokes_each_once_witness:
  "distinct [3, 2, 4 :: nat] \<and>
   (case event_run sample_fns (map (On ''x'') [3, 2, 4]) (new_EventService, sample_env) of
      (this, e) \<Rightarrow>
        fst (emit sample_fns this ''x'' (7 :: int) e) = Inr () \<and>
        new_calls e (snd (emit sample_fns this ''x'' 7 e)) =
          [(3, \<lparr>type = ''x'', data = 7\<rparr>), (2, \<lparr>type = ''x'', data = 7\<rparr>),
           (4, \<lparr>type = ''x'', data = 7\<rparr>)] \<and>
        listenerCount this ''x'' = 3)"
  using emit_invokes_each_once [where L = "[3, 2, 4]" and fns = sample_fns and n = "''x''"
      and ?e0.0 = sample_env and p = "7 :: int"]
  by (simp split: prod.splits)

text \<open>
  Claim C4. In every state of an \<open>EventService\<close>: \<open>off(n, l)\<close> returns normally; after
  it, and after any further calls that do not register \<open>l\<close> for \<open>n\<close> again, \<open>emit(n, p)\<close>
  returns normally and does not call \<open>l\<close>; when \<open>l\<close> was the only listener registered
  for \<open>n\<close>, the name \<open>n\<close> is not in \<open>eventTypes()\<close> afterwards; and when \<open>n\<close> is not a
  registered name or \<open>l\<close> is not registered for \<open>n\<close>, \<open>off(n, l)\<close> changes nothing.
\<close>

theorem off_then_emit:
  "case event_run fns cs (new_EventService, e0) of (this, e) \<Rightarrow>
     fst (off n l this) = Inr () \<and>
     (On n l \<notin> set cs' \<longrightarrow>
        (case event_run fns cs' (snd (off n l this), e) of (this', e') \<Rightarrow>
           fst (emit fns this' n p e') = Inr () \<and>
           l \<notin> fst ` set (new_calls e' (snd (emit fns this' n p e'))))) \<and>
     (registered this n = [l] \<longrightarrow> n \<notin> set (eventTypes (snd (off n l this)))) \<and>
     (n \<notin> set (eventTypes this) \<or> l \<notin> set (registered this n)
        \<longrightarrow> snd (off n l this) = this)"
proof -
  obtain this e where run: "event_run fns cs (new_EventService, e0) = (this, e)"
    by (cases "event_run fns cs (new_EventService, e0)")
  have ok: "registry_ok this"
    using registry_ok_reachable [of fns cs e0] by (simp add: run)
  have gone: "l \<notin> set (registered (snd (off n l this)) n)"
    by (simp add: registered_off_same set_delete_def)
  have later: "On n l \<notin> set cs' \<longrightarrow>
        (case event_run fns cs' (snd (off n l this), e) of (this', e') \<Rightarrow>
           fst (emit fns this' n p e') = Inr () \<and>
           l \<notin> fst ` set (new_calls e' (snd (emit fns this' n p e'))))"
  proof
    assume no_on: "On n l \<notin> set cs'"
    obtain this' e' where run': "event_run fns cs' (snd (off n l this), e) = (this', e')"
      by (cases "event_run fns cs' (snd (off n l this), e)")
    have "l \<notin> set (registered this' n)"
      using unregistered_run [of l "(snd (off n l this), e)" n cs' fns] gone no_on
      by (simp add: run')
    then have "l \<notin> fst ` set (new_calls e' (snd (emit fns this' n p e')))"
      by (auto simp: emit_new_calls)
    then show "case event_run fns cs' (snd (off n l this), e) of (this', e') \<Rightarrow>
           fst (emit fns this' n p e') = Inr () \<and>
           l \<notin> fst ` set (new_calls e' (snd (emit fns this' n p e')))"
      by (simp add: run' emit_returns)
  qed
  have last: "registered this n = [l] \<longrightarrow> n \<notin> set (eventTypes (snd (off n l this)))"
    by (simp add: off_last_unlists)
  have "n \<notin> set (eventTypes this) \<Longrightarrow> l \<notin> set (registered this n)"
    by (simp add: eventTypes_def registered_def map_get_None_iff [symmetric])
  then have noop: "n \<notin> set (eventTypes this) \<or> l \<notin> set (registered this n)
        \<longrightarrow> snd (off n l this) = this"
    using off_unregistered [OF ok] by blast
  from later last noop show ?thesis
    by (simp add: run off_returns)
qed

theorem off_then_emit_witness:
  "case event_run sample_fns [On ''x'' 2, On ''x'' 3 :: int event_call]
          (new_EventService, sample_env) of
     (this, e) \<Rightarrow>
       fst (off ''x'' 2 this) = Inr () \<and>
       On ''x'' 2 \<notin> set [On ''y'' 2, Emit ''x'' (7 :: int)] \<and>
       (case event_run sample_fns [On ''y'' 2, Emit ''x'' (7 :: int)] (snd (off ''x'' 2 this), e) of
          (this', e') \<Rightarrow>
            2 \<notin> fst ` set (new_calls e' (snd (emit sample_fns this' ''x'' 7 e')))) \<and>
       registered (snd (off ''x'' 2 this)) ''x'' = [3] \<and>
       ''x'' \<notin> set (eventTypes (snd (off ''x'' 3 (snd (off ''x'' 2 this))))) \<and>
       ''y'' \<notin> set (eventTypes this) \<and> snd (off ''y'' 2 this) = this \<and>
       4 \<notin> set (registered this ''x'') \<and> snd (off ''x'' 4 this) = this"
proof -
  obtain this e where run:
    "event_run sample_fns [On ''x'' 2, On ''x'' 3 :: int event_call] (new_EventService, sample_env)
       = (this, e)"
    by (cases "event_run sample_fns [On ''x'' 2, On ''x'' 3 :: int event_call]
          (new_EventService, sample_env)")
  from sample_registry_value [unfolded sample_registry_def run]
  have st: "this = \<lparr>listeners = [(''x'', [2, 3])]\<rparr>"
    by simp
  have reg: "registered this ''x'' = [2, 3]"
    and names: "''y'' \<notin> set (eventTypes this)"
    by (simp_all add: st registered_def eventTypes_def map_get_def map_keys_def)
  have st2: "snd (off ''x'' 2 this) = \<lparr>listeners = [(''x'', [3])]\<rparr>"
    by (simp add: st off_def map_get_def map_set_def set_delete_def set_size_def)
  have reg2: "registered (snd (off ''x'' 2 this)) ''x'' = [3]"
    by (simp add: st2 registered_def map_get_def)
  have fresh: "On ''x'' 2 \<notin> set [On ''y'' 2, Emit ''x'' (7 :: int)]"
    by simp
  note first = off_then_emit [where fns = sample_fns and cs = "[On ''x'' 2, On ''x'' 3]"
      and ?e0.0 = sample_env and n = "''x''" and l = 2 and p = "7 :: int"
      and cs' = "[On ''y'' 2, Emit ''x'' 7]", unfolded run prod.case]
  from first fresh have later:
    "case event_run sample_fns [On ''y'' 2, Emit ''x'' 7] (snd (off ''x'' 2 this), e) of
          (this', e') \<Rightarrow>
            2 \<notin> fst ` set (new_calls e' (snd (emit sample_fns this' ''x'' 7 e')))"
    and ret: "fst (off ''x'' 2 this) = Inr ()"
    by (simp_all add: case_prod_unfold)
  have "\<lparr>listeners = [(''x'', [3])]\<rparr> =
      fst (event_run sample_fns [On ''x'' 3 :: int event_call] (new_EventService, sample_env))"
    by (simp add: event_run_def on_def new_EventService_def map_has_def map_get_def
        map_set_def set_add_def)
  then obtain e3 where run3:
    "event_run sample_fns [On ''x'' 3 :: int event_call] (new_EventService, sample_env)
       = (snd (off ''x'' 2 this), e3)"
    by (cases "event_run sample_fns [On ''x'' 3 :: int event_call]
          (new_EventService, sample_env)") (simp add: st2)
  from off_then_emit [where fns = sample_fns and cs = "[On ''x'' 3]"
      and ?e0.0 = sample_env and n = "''x''" and l = 3 and p = "7 :: int" and cs' = "[]",
      unfolded run3 prod.case] reg2
  have last: "''x'' \<notin> set (eventTypes (snd (off ''x'' 3 (snd (off ''x'' 2 this)))))"
    by simp
  from off_then_emit [where fns = sample_fns and cs = "[On ''x'' 2, On ''x'' 3]"
      and ?e0.0 = sample_env and n = "''y''" and l = 2 and p = "7 :: int" and cs' = "[]",
      unfolded run prod.case] names
  have noname: "snd (off ''y'' 2 this) = this"
    by simp
  from off_then_emit [where fns = sample_fns and cs = "[On ''x'' 2, On ''x'' 3]"
      and ?e0.0 = sample_env and n = "''x''" and l = 4 and p = "7 :: int" and cs' = "[]",
      unfolded run prod.case] reg
  have nolistener: "snd (off ''x'' 4 this) = this"
    by simp
  show ?thesis
    unfolding run prod.case
    using ret fresh later reg2 last names noname nolistener reg
    by simp
qed

text \<open>
  Claim C5. In every state of an \<open>EventService\<close>, once \<open>on(n, l)\<close> has been called,
  calling it again, any number \<open>k\<close> of times, returns normally and leaves the service as
  it is, so \<open>listenerCount(n)\<close> is what it was after the first call; and an \<open>emit(n, p)\<close>
  after that calls \<open>l\<close> exactly once.
\<close>

theorem on_again_changes_nothing:
  "case event_run fns cs (new_EventService, e0) of (this, e) \<Rightarrow>
     (let this1 = snd (on n l this);
          thisk = ((\<lambda>s. snd (on n l s)) ^^ k) this1
      in fst (on n l this1) = Inr () \<and>
         thisk = this1 \<and>
         listenerCount thisk n = listenerCount this1 n \<and>
         count_list (map fst (new_calls e (snd (emit fns thisk n p e)))) l = 1)"
proof -
  obtain this e where run: "event_run fns cs (new_EventService, e0) = (this, e)"
    by (cases "event_run fns cs (new_EventService, e0)")
  define this1 where "this1 = snd (on n l this)"
  have ok: "registry_ok this1"
    using registry_ok_reachable [of fns cs e0] by (simp add: run this1_def registry_ok_on)
  have mem: "l \<in> set (registered this1 n)"
    by (simp add: this1_def registered_on_same set_add_def)
  have again: "snd (on n l this1) = this1"
    using mem by (rule on_registered_again)
  have k: "((\<lambda>s. snd (on n l s)) ^^ k) this1 = this1"
    by (induction k) (simp_all add: again)
  have "count_list (map fst (new_calls e (snd (emit fns this1 n p e)))) l = 1"
    using registry_ok_registered [OF ok, of n] mem
    by (simp add: emit_new_calls count_fst_map_pair count_list_distinct)
  then show ?thesis
    by (simp add: run Let_def this1_def [symmetric] k on_returns)
qed

theorem on_again_changes_nothing_witness:
  "case event_run sample_fns [On ''x'' 2, On ''x'' 3] (new_EventService, sample_env) of
     (this, e) \<Rightarrow>
       (let this1 = snd (on ''x'' 3 this);
            thisk = ((\<lambda>s. snd (on ''x'' 3 s)) ^^ 2) this1
        in fst (on ''x'' 3 this1) = Inr () \<and>
           thisk = this1 \<and>
           listenerCount thisk ''x'' = listenerCount this1 ''x'' \<and>
           count_list (map fst (new_calls e (snd (emit sample_fns thisk ''x'' (7 :: int) e)))) 3 = 1)"
  using on_again_changes_nothing [where fns = sample_fns and cs = "[On ''x'' 2, On ''x'' 3]"
          and ?e0.0 = sample_env and n = "''x''" and l = 3 and k = 2 and p = "7 :: int"]
  by simp

text \<open>
  Claim C6. In every state that an \<open>EventService\<close> reaches from the empty one by calls of
  \<open>on\<close>, \<open>off\<close>, \<open>emit\<close>, \<open>clear\<close> and \<open>clearAll\<close>, every name that is a key of the map
  \<open>listeners\<close> has a non-empty set, and a name is in \<open>eventTypes()\<close> exactly when its
  \<open>listenerCount\<close> is positive.
\<close>

theorem registry_has_no_empty_entry:
  "case event_run fns cs (new_EventService, e0) of (this, e) \<Rightarrow>
     (\<forall>(n, s) \<in> set (listeners this). s \<noteq> []) \<and>
     (\<forall>n. n \<in> set (eventTypes this) \<longleftrightarrow> 0 < listenerCount this n)"
proof -
  obtain this e where run: "event_run fns cs (new_EventService, e0) = (this, e)"
    by (cases "event_run fns cs (new_EventService, e0)")
  have ok: "registry_ok this"
    using registry_ok_reachable [of fns cs e0] by (simp add: run)
  then have nonempty: "\<forall>(n, s) \<in> set (listeners this). s \<noteq> []"
    by (auto simp: registry_ok_def)
  have "n \<in> set (eventTypes this) \<longleftrightarrow> 0 < listenerCount this n" for n
  proof (cases "map_get (listeners this) n")
    case None
    then show ?thesis
      by (simp add: eventTypes_def listenerCount_def map_get_None_iff [symmetric])
  next
    case (Some s)
    then have "(n, s) \<in> set (listeners this)" by (rule map_get_in_set)
    with nonempty have "s \<noteq> []" by auto
    moreover have "n \<in> set (eventTypes this)"
      using Some map_get_None_iff [of "listeners this" n] by (simp add: eventTypes_def)
    ultimately show ?thesis
      using Some by (simp add: listenerCount_def set_size_def)
  qed
  with nonempty show ?thesis
    by (simp add: run)
qed

theorem registry_has_no_empty_entry_witness:
  "case event_run sample_fns
          [On ''x'' 2, On ''y'' 3, Emit ''x'' (7 :: int), Off ''x'' 2, Clear ''z'']
          (new_EventService, sample_env) of
     (this, e) \<Rightarrow>
       listeners this = [(''y'', [3])] \<and>
       ''y'' \<in> set (eventTypes this) \<and> 0 < listenerCount this ''y'' \<and>
       ''x'' \<notin> set (eventTypes this) \<and> listenerCount this ''x'' = 0"
proof -
  obtain this e where run: "event_run sample_fns
          [On ''x'' 2, On ''y'' 3, Emit ''x'' (7 :: int), Off ''x'' 2, Clear ''z'']
          (new_EventService, sample_env) = (this, e)"
    by (cases "event_run sample_fns
          [On ''x'' 2, On ''y'' 3, Emit ''x'' (7 :: int), Off ''x'' 2, Clear ''z'']
          (new_EventService, sample_env)")
  have "listeners (fst (event_run sample_fns
          [On ''x'' 2, On ''y'' 3, Emit ''x'' (7 :: int), Off ''x'' 2, Clear ''z'']
          (new_EventService, sample_env))) = [(''y'', [3])]"
    by (simp add: event_run_def on_def off_def clear_def new_EventService_def map_has_def
        map_get_def map_set_def map_delete_def set_add_def set_delete_def set_size_def)
  then have st: "listeners this = [(''y'', [3])]"
    by (simp add: run)
  have names: "eventTypes this = [''y'']"
    by (simp add: eventTypes_def map_keys_def st)
  have inv: "(\<forall>(n, s) \<in> set (listeners this). s \<noteq> []) \<and>
     (\<forall>n. n \<in> set (eventTypes this) \<longleftrightarrow> 0 < listenerCount this n)"
    using registry_has_no_empty_entry [where fns = sample_fns
            and cs = "[On ''x'' 2, On ''y'' 3, Emit ''x'' (7 :: int), Off ''x'' 2, Clear ''z'']"
            and ?e0.0 = sample_env]
    by (simp add: run)
  then have y: "''y'' \<in> set (eventTypes this) \<longleftrightarrow> 0 < listenerCount this ''y''"
    and x: "''x'' \<in> set (eventTypes this) \<longleftrightarrow> 0 < listenerCount this ''x''"
    by blast+
  have "0 < listenerCount this ''y''"
    using y by (simp add: names)
  moreover have "listenerCount this ''x'' = 0"
    using x by (simp add: names)
  ultimately show ?thesis
    by (simp add: run st names)
qed

section \<open>Properties of BroadcastService\<close>

subsection \<open>The adapters\<close>

lemma messageHandler_result:
  "messageHandler fns h x e = (r, e') \<Longrightarrow> r = Inr () \<and> calls e' = calls e @ [(h_callback h, x)]"
  unfolding messageHandler_def by (rule guarded_call)

lemma forEach_messageHandler:
  "fst (forEach (\<lambda>h. messageHandler fns h x) hs e) = Inr () \<and>
   calls (snd (forEach (\<lambda>h. messageHandler fns h x) hs e))
     = calls e @ map (\<lambda>h. (h_callback h, x)) hs"
proof (induction hs arbitrary: e)
  case Nil
  show ?case by simp
next
  case (Cons h hs)
  obtain r e' where step: "messageHandler fns h x e = (r, e')"
    by (cases "messageHandler fns h x e")
  from messageHandler_result [OF step]
  have r: "r = Inr ()" and c: "calls e' = calls e @ [(h_callback h, x)]"
    by simp_all
  show ?case using Cons.IH [of e'] by (simp add: step r c)
qed

lemma messageHandler_returns: "fst (messageHandler fns h x e) = Inr ()"
  using messageHandler_result [of fns h x e] by (cases "messageHandler fns h x e") simp

lemma messageHandler_calls:
  "new_calls e (snd (messageHandler fns h x e)) = [(h_callback h, x)]"
  using messageHandler_result [of fns h x e]
  by (cases "messageHandler fns h x e") (simp add: new_calls_def)

lemma deliver_returns: "fst (deliver fns ch x e) = Inr ()"
  by (simp add: deliver_def forEach_messageHandler)

lemma deliver_calls:
  "new_calls e (snd (deliver fns ch x e)) = map (\<lambda>h. (h_callback h, x)) (bc_listeners ch)"
  by (simp add: deliver_def new_calls_def forEach_messageHandler)

lemma sample_service_value:
  "sample_service =
     \<lparr>channels =
        [(''c'', \<lparr>bc_name = ''c'',
                  bc_listeners = [\<lparr>h_id = 1, h_callback = 2, h_channelName = ''c''\<rparr>,
                                  \<lparr>h_id = 2, h_callback = 3, h_channelName = ''c''\<rparr>]\<rparr>),
         (''d'', \<lparr>bc_name = ''d'',
                  bc_listeners = [\<lparr>h_id = 3, h_callback = 4, h_channelName = ''d''\<rparr>]\<rparr>)],
      chan_listeners =
        [(''c'', [(''listener_1'', \<lparr>h_id = 1, h_callback = 2, h_channelName = ''c''\<rparr>),
                  (''listener_2'', \<lparr>h_id = 2, h_callback = 3, h_channelName = ''c''\<rparr>)]),
         (''d'', [(''listener_3'', \<lparr>h_id = 3, h_callback = 4, h_channelName = ''d''\<rparr>)])],
      listenerIdCounter = 3\<rparr>"
  by (simp add: sample_service_def broadcast_eval)

text \<open>
  Claim C3. In every state of an \<open>EventService\<close>, whatever the listeners do when called
  (any of them may raise), \<open>emit(n, p)\<close> returns normally and calls every listener
  registered for \<open>n\<close>, each with the envelope, those after a raising one included. The
  adapters of \<open>BroadcastService\<close> do the same: an adapter called with a message returns
  normally whatever its callback does, so a delivery to a handle calls the callback of
  every adapter registered on it.
\<close>

theorem listener_failure_isolated:
  "fst (emit fns this n d e) = Inr () \<and>
   new_calls e (snd (emit fns this n d e))
     = map (\<lambda>l. (l, \<lparr>type = n, data = d\<rparr>)) (registered this n) \<and>
   fst (messageHandler bfns h x be) = Inr () \<and>
   new_calls be (snd (messageHandler bfns h x be)) = [(h_callback h, x)] \<and>
   fst (deliver bfns ch x be) = Inr () \<and>
   new_calls be (snd (deliver bfns ch x be)) = map (\<lambda>h. (h_callback h, x)) (bc_listeners ch)"
  by (simp add: emit_returns emit_new_calls messageHandler_returns messageHandler_calls
      deliver_returns deliver_calls)

theorem listener_failure_isolated_witness:
  "fst (sample_fns 2 \<lparr>type = ''x'', data = 7 :: int\<rparr> 0) = Inl (Thrown ''boom'') \<and>
   fst (emit sample_fns sample_registry ''x'' (7 :: int) sample_env) = Inr () \<and>
   new_calls sample_env (snd (emit sample_fns sample_registry ''x'' (7 :: int) sample_env))
     = [(2, \<lparr>type = ''x'', data = 7\<rparr>), (3, \<lparr>type = ''x'', data = 7\<rparr>)] \<and>
   fst (sample_fns 2 (5 :: int) 0) = Inl (Thrown ''boom'') \<and>
   map_get (channels sample_service) ''c'' =
     Some \<lparr>bc_name = ''c'',
           bc_listeners = [\<lparr>h_id = 1, h_callback = 2, h_channelName = ''c''\<rparr>,
                           \<lparr>h_id = 2, h_callback = 3, h_channelName = ''c''\<rparr>]\<rparr> \<and>
   fst (deliver sample_fns
          \<lparr>bc_name = ''c'',
           bc_listeners = [\<lparr>h_id = 1, h_callback = 2, h_channelName = ''c''\<rparr>,
                           \<lparr>h_id = 2, h_callback = 3, h_channelName = ''c''\<rparr>]\<rparr>
          (5 :: int) sample_env) = Inr () \<and>
   new_calls sample_env
     (snd (deliver sample_fns
          \<lparr>bc_name = ''c'',
           bc_listeners = [\<lparr>h_id = 1, h_callback = 2, h_channelName = ''c''\<rparr>,
                           \<lparr>h_id = 2, h_callback = 3, h_channelName = ''c''\<rparr>]\<rparr>
          (5 :: int) sample_env)) = [(2, 5), (3, 5)]"
proof -
  have reg: "registered sample_registry ''x'' = [2, 3]"
    by (simp add: sample_registry_value registered_def map_get_def)
  have raises: "fst (sample_fns 2 p 0) = Inl (Thrown ''boom'')" for p :: 'p
    by (simp add: sample_fns_def)
  have ch: "map_get (channels sample_service) ''c'' =
      Some \<lparr>bc_name = ''c'',
            bc_listeners = [\<lparr>h_id = 1, h_callback = 2, h_channelName = ''c''\<rparr>,
                            \<lparr>h_id = 2, h_callback = 3, h_channelName = ''c''\<rparr>]\<rparr>"
    by (simp add: sample_service_value map_get_def)
  show ?thesis
    using listener_failure_isolated [where fns = sample_fns and this = sample_registry
        and n = "''x''" and d = "7 :: int" and e = sample_env and bfns = sample_fns
        and ch = "\<lparr>bc_name = ''c'',
            bc_listeners = [\<lparr>h_id = 1, h_callback = 2, h_channelName = ''c''\<rparr>,
                            \<lparr>h_id = 2, h_callback = 3, h_channelName = ''c''\<rparr>]\<rparr>"
        and x = "5 :: int" and be = sample_env]
    by (simp add: reg raises ch)
qed

subsection \<open>unsubscribe\<close>

lemma unsubscribe_returns: "fst (unsubscribe c i this) = Inr ()"
  by (simp add: unsubscribe_def split: option.splits)

lemma unsubscribe_cases:
  obtains (found) ch ls h where
      "map_get (channels this) c = Some ch" "map_get (chan_listeners this) c = Some ls"
      "map_get ls i = Some h"
      "snd (unsubscribe c i this) =
         this\<lparr>channels := map_set (channels this) c (removeEventListener ch h),
              chan_listeners := map_set (chan_listeners this) c (map_delete ls i)\<rparr>"
  | (absent) "map_get (channels this) c = None \<or> map_get (adapters_of this c) i = None"
      "snd (unsubscribe c i this) = this"
proof (cases "map_get (channels this) c")
  case None
  then show ?thesis using absent by (simp add: unsubscribe_def)
next
  case ch: (Some ch)
  show ?thesis
  proof (cases "map_get (chan_listeners this) c")
    case None
    then show ?thesis using absent
      by (simp add: unsubscribe_def adapters_of_def map_get_def split: option.splits)
  next
    case ls: (Some ls)
    show ?thesis
    proof (cases "map_get ls i")
      case None
      then show ?thesis using absent ch ls
        by (simp add: unsubscribe_def adapters_of_def)
    next
      case (Some h)
      then show ?thesis using found [of ch ls h] ch ls
        by (simp add: unsubscribe_def)
    qed
  qed
qed

lemma unsubscribe_counter:
  "listenerIdCounter (snd (unsubscribe c i this)) = listenerIdCounter this"
  by (cases rule: unsubscribe_cases [of this c i]) simp_all

lemma unsubscribe_active:
  "getActiveChannels (snd (unsubscribe c i this)) = getActiveChannels this"
  by (cases rule: unsubscribe_cases [of this c i])
     (simp_all add: getActiveChannels_def keys_map_set_present map_has_get)

lemma unsubscribe_listener_keys:
  "map_keys (chan_listeners (snd (unsubscribe c i this))) = map_keys (chan_listeners this)"
  by (cases rule: unsubscribe_cases [of this c i])
     (simp_all add: keys_map_set_present map_has_get)

lemma unsubscribe_other_channel:
  assumes "c' \<noteq> c"
  shows "map_get (channels (snd (unsubscribe c i this))) c' = map_get (channels this) c'"
    and "adapters_of (snd (unsubscribe c i this)) c' = adapters_of this c'"
  using assms
  by (cases rule: unsubscribe_cases [of this c i]; simp add: adapters_of_def map_get_set_other)+

lemma unsubscribe_other_id:
  assumes "j \<noteq> i"
  shows "map_get (adapters_of (snd (unsubscribe c i this)) c) j = map_get (adapters_of this c) j"
  using assms
  by (cases rule: unsubscribe_cases [of this c i])
     (simp_all add: adapters_of_def map_get_set_same map_get_delete_other)

lemma unsubscribe_this_id:
  assumes "isChannelActive this c"
  shows "map_get (adapters_of (snd (unsubscribe c i this)) c) i = None"
  using assms
  by (cases rule: unsubscribe_cases [of this c i])
     (auto simp: adapters_of_def map_get_set_same map_get_delete_same isChannelActive_def
        map_has_get)

lemma unsubscribe_handle:
  assumes "map_get (channels this) c = Some ch"
  shows "\<exists>ch'. map_get (channels (snd (unsubscribe c i this))) c = Some ch' \<and>
           bc_name ch' = bc_name ch \<and>
           set (bc_listeners ch') \<subseteq> set (bc_listeners ch) \<and>
           (\<forall>h \<in> set (bc_listeners ch).
              map_get (adapters_of this c) i \<noteq> Some h \<longrightarrow> h \<in> set (bc_listeners ch'))"
  using assms
  by (cases rule: unsubscribe_cases [of this c i])
     (auto simp: adapters_of_def map_get_set_same removeEventListener_def set_delete_def)

text \<open>
  Claim C8. In every state, \<open>unsubscribe(c, i)\<close> returns normally and leaves the counter,
  the list of active channels and the channels that have an adapter map as they are;
  every other channel keeps its handle and its adapters; on \<open>c\<close> every listener id other
  than \<open>i\<close> keeps its adapter, and the handle of \<open>c\<close> stays in place with the same name,
  gains no listener and loses none but the adapter registered under \<open>i\<close>. When \<open>c\<close> is
  not active or \<open>i\<close> is not an id of \<open>c\<close>, nothing changes.
\<close>

theorem unsubscribe_frame:
  "case unsubscribe c i this of (r, this') \<Rightarrow>
     r = Inr () \<and>
     listenerIdCounter this' = listenerIdCounter this \<and>
     getActiveChannels this' = getActiveChannels this \<and>
     map_keys (chan_listeners this') = map_keys (chan_listeners this) \<and>
     (\<forall>c'. c' \<noteq> c \<longrightarrow>
        map_get (channels this') c' = map_get (channels this) c' \<and>
        adapters_of this' c' = adapters_of this c') \<and>
     (\<forall>j. j \<noteq> i \<longrightarrow> map_get (adapters_of this' c) j = map_get (adapters_of this c) j) \<and>
     (isChannelActive this c \<longrightarrow> map_get (adapters_of this' c) i = None) \<and>
     (\<forall>ch. map_get (channels this) c = Some ch \<longrightarrow>
        (\<exists>ch'. map_get (channels this') c = Some ch' \<and> bc_name ch' = bc_name ch \<and>
           set (bc_listeners ch') \<subseteq> set (bc_listeners ch) \<and>
           (\<forall>h \<in> set (bc_listeners ch).
              map_get (adapters_of this c) i \<noteq> Some h \<longrightarrow> h \<in> set (bc_listeners ch')))) \<and>
     (\<not> isChannelActive this c \<or> map_get (adapters_of this c) i = None \<longrightarrow> this' = this)"
proof -
  obtain r this' where u: "unsubscribe c i this = (r, this')"
    by (cases "unsubscribe c i this")
  then have r: "r = fst (unsubscribe c i this)" and t: "this' = snd (unsubscribe c i this)"
    by simp_all
  have noop: "\<not> isChannelActive this c \<or> map_get (adapters_of this c) i = None \<longrightarrow> this' = this"
    unfolding t
    by (cases rule: unsubscribe_cases [of this c i])
       (simp_all add: isChannelActive_def map_has_get adapters_of_def)
  show ?thesis
    unfolding u prod.case
    using noop unsubscribe_handle [of this c _ i]
    by (simp add: r t unsubscribe_returns unsubscribe_counter unsubscribe_active
        unsubscribe_listener_keys unsubscribe_other_channel unsubscribe_other_id
        unsubscribe_this_id)
qed

theorem unsubscribe_frame_witness:
  "(case unsubscribe ''c'' ''listener_1'' sample_service of
      (r, this') \<Rightarrow>
        r = Inr () \<and>
        isChannelActive sample_service ''c'' \<and>
        getActiveChannels this' = [''c'', ''d''] \<and>
        map_get (adapters_of this' ''c'') ''listener_1'' = None \<and>
        map_get (adapters_of this' ''c'') ''listener_2''
          = Some \<lparr>h_id = 2, h_callback = 3, h_channelName = ''c''\<rparr> \<and>
        map_get (channels this') ''d'' = map_get (channels sample_service) ''d'' \<and>
        adapters_of this' ''d'' = adapters_of sample_service ''d'') \<and>
   map_keys (adapters_of sample_service ''d'') = [''listener_3''] \<and>
   isChannelActive sample_service ''d'' \<and>
   getActiveChannels (snd (unsubscribe ''d'' ''listener_3'' sample_service)) = [''c'', ''d''] \<and>
   map_get (adapters_of (snd (unsubscribe ''d'' ''listener_3'' sample_service)) ''d'') ''listener_3''
     = None \<and>
   \<not> isChannelActive sample_service ''zz'' \<and>
   snd (unsubscribe ''zz'' ''listener_1'' sample_service) = sample_service \<and>
   map_get (adapters_of sample_service ''c'') ''listener_9'' = None \<and>
   snd (unsubscribe ''c'' ''listener_9'' sample_service) = sample_service"
proof -
  obtain r this' where u: "unsubscribe ''c'' ''listener_1'' sample_service = (r, this')"
    by (cases "unsubscribe ''c'' ''listener_1'' sample_service")
  have active: "isChannelActive sample_service ''c''"
    and names: "getActiveChannels sample_service = [''c'', ''d'']"
    and second: "map_get (adapters_of sample_service ''c'') ''listener_2''
          = Some \<lparr>h_id = 2, h_callback = 3, h_channelName = ''c''\<rparr>"
    and unknown_channel: "\<not> isChannelActive sample_service ''zz''"
    and unknown_id: "map_get (adapters_of sample_service ''c'') ''listener_9'' = None"
    by (simp_all add: sample_service_value isChannelActive_def getActiveChannels_def
        adapters_of_def map_has_def map_get_def map_keys_def)
  from unsubscribe_frame [where c = "''c''" and i = "''listener_1''" and this = sample_service]
  have found: "r = Inr ()" "getActiveChannels this' = getActiveChannels sample_service"
    "\<forall>c'. c' \<noteq> ''c'' \<longrightarrow>
        map_get (channels this') c' = map_get (channels sample_service) c' \<and>
        adapters_of this' c' = adapters_of sample_service c'"
    "\<forall>j. j \<noteq> ''listener_1'' \<longrightarrow>
        map_get (adapters_of this' ''c'') j = map_get (adapters_of sample_service ''c'') j"
    "isChannelActive sample_service ''c'' \<longrightarrow>
        map_get (adapters_of this' ''c'') ''listener_1'' = None"
    by (simp_all add: u)
  from unsubscribe_frame [where c = "''zz''" and i = "''listener_1''" and this = sample_service] unknown_channel
  have no_channel: "snd (unsubscribe ''zz'' ''listener_1'' sample_service) = sample_service"
    by (simp add: case_prod_unfold)
  from unsubscribe_frame [where c = "''c''" and i = "''listener_9''" and this = sample_service] unknown_id
  have no_id: "snd (unsubscribe ''c'' ''listener_9'' sample_service) = sample_service"
    by (simp add: case_prod_unfold)
  from found(3) have other: "map_get (channels this') ''d'' = map_get (channels sample_service) ''d''"
    "adapters_of this' ''d'' = adapters_of sample_service ''d''"
    by simp_all
  from found(4) second have kept: "map_get (adapters_of this' ''c'') ''listener_2''
          = Some \<lparr>h_id = 2, h_callback = 3, h_channelName = ''c''\<rparr>"
    by simp
  have only: "map_keys (adapters_of sample_service ''d'') = [''listener_3'']"
    and active_d: "isChannelActive sample_service ''d''"
    by (simp_all add: sample_service_value isChannelActive_def adapters_of_def map_has_def
        map_get_def map_keys_def)
  from unsubscribe_frame [where c = "''d''" and i = "''listener_3''" and this = sample_service]
    active_d names
  have last: "getActiveChannels (snd (unsubscribe ''d'' ''listener_3'' sample_service))
      = [''c'', ''d'']"
    "map_get (adapters_of (snd (unsubscribe ''d'' ''listener_3'' sample_service)) ''d'')
       ''listener_3'' = None"
    by (simp_all add: case_prod_unfold)
  show ?thesis
    using found(1,2,5) active names other kept unknown_channel unknown_id no_channel no_id
      only active_d last
    by (simp add: u)
qed

subsection \<open>broadcast\<close>

lemma opened_has: "\<exists>ch. map_get (channels (opened this c)) c = Some ch"
  by (auto simp: opened_def map_has_get map_get_set_same)

lemma broadcast_result:
  assumes "map_get (channels (opened this c)) c = Some ch"
      and "post ch d (world e) = (r, w')"
  shows "broadcast post c d (this, e) =
     (Inr (), opened this c,
      e\<lparr>world := w',
        console := console e @
          (case r of
             Inl error \<Rightarrow> [(''Error broadcasting to '' @ quoted c @ '':'', error)]
           | Inr u \<Rightarrow> [])\<rparr>)"
  using assms
  by (simp add: broadcast_def opened_def [symmetric] Let_def try_catch_def postMessage_def
      console_error_def split: sum.splits)

lemma broadcast_state:
  "fst (broadcast post c d (this, e)) = Inr ()"
  "fst (snd (broadcast post c d (this, e))) = opened this c"
proof -
  obtain ch where ch: "map_get (channels (opened this c)) c = Some ch"
    using opened_has by blast
  obtain r w' where p: "post ch d (world e) = (r, w')"
    by (cases "post ch d (world e)")
  have "broadcast post c d (this, e) =
     (Inr (), opened this c,
      e\<lparr>world := w',
        console := console e @
          (case r of
             Inl error \<Rightarrow> [(''Error broadcasting to '' @ quoted c @ '':'', error)]
           | Inr u \<Rightarrow> [])\<rparr>)"
    using ch p by (rule broadcast_result)
  then show "fst (broadcast post c d (this, e)) = Inr ()"
    and "fst (snd (broadcast post c d (this, e))) = opened this c"
    by simp_all
qed

text \<open>
  Claim C9. For every channel name, every payload (\<open>None\<close> is the omitted payload), every
  state and every behaviour of the transport, \<open>broadcast(c, payload)\<close> returns normally
  and \<open>c\<close> is active afterwards. When \<open>postMessage\<close> raises, exactly one line is written
  to the console, the message naming \<open>c\<close> together with the error; when it does not,
  nothing is written. A channel that was not active is appended to the active channels
  with a new handle; an active one leaves the service as it was. (Opening a handle does
  not raise in this model of the transport; only sending may.)
\<close>

theorem broadcast_never_raises:
  "case broadcast post c d (this, e) of (r, (this', e')) \<Rightarrow>
     r = Inr () \<and>
     isChannelActive this' c \<and>
     (\<forall>ch. map_get (channels this') c = Some ch \<longrightarrow>
        (case post ch d (world e) of
           (Inl error, w') \<Rightarrow>
             world e' = w' \<and>
             new_console e e' = [(''Error broadcasting to '' @ quoted c @ '':'', error)]
         | (Inr u, w') \<Rightarrow> world e' = w' \<and> new_console e e' = [])) \<and>
     (\<not> isChannelActive this c \<longrightarrow>
        getActiveChannels this' = getActiveChannels this @ [c] \<and>
        map_get (channels this') c = Some (new_BroadcastChannel c)) \<and>
     (isChannelActive this c \<longrightarrow> this' = this) \<and>
     chan_listeners this' = chan_listeners this \<and>
     listenerIdCounter this' = listenerIdCounter this"
proof -
  obtain ch where ch: "map_get (channels (opened this c)) c = Some ch"
    using opened_has by blast
  obtain r w' where p: "post ch d (world e) = (r, w')"
    by (cases "post ch d (world e)")
  have act: "isChannelActive (opened this c) c"
    using ch by (simp add: isChannelActive_def map_has_get)
  have new: "\<not> isChannelActive this c \<longrightarrow>
        getActiveChannels (opened this c) = getActiveChannels this @ [c] \<and>
        map_get (channels (opened this c)) c = Some (new_BroadcastChannel c)"
    by (simp add: isChannelActive_def opened_def getActiveChannels_def keys_map_set_absent
        map_get_set_same)
  have old: "isChannelActive this c \<longrightarrow> opened this c = this"
    by (simp add: isChannelActive_def opened_def)
  have rest: "chan_listeners (opened this c) = chan_listeners this"
    "listenerIdCounter (opened this c) = listenerIdCounter this"
    by (simp_all add: opened_def)
  have b: "broadcast post c d (this, e) =
     (Inr (), opened this c,
      e\<lparr>world := w',
        console := console e @
          (case r of
             Inl error \<Rightarrow> [(''Error broadcasting to '' @ quoted c @ '':'', error)]
           | Inr u \<Rightarrow> [])\<rparr>)"
    using ch p by (rule broadcast_result)
  show ?thesis
    unfolding b prod.case
    using act new old rest by (cases r) (simp_all add: ch p new_console_def)
qed

theorem broadcast_never_raises_witness:
  "(case broadcast sample_post ''new'' (Some 0) (new_BroadcastService, sample_env :: (int, nat) env) of
      (r, (this', e')) \<Rightarrow>
        \<not> isChannelActive new_BroadcastService ''new'' \<and>
        sample_post (new_BroadcastChannel ''new'') (Some 0) 0 = (Inl (Thrown ''DataCloneError''), 0) \<and>
        r = Inr () \<and> isChannelActive this' ''new'' \<and>
        getActiveChannels this' = [''new''] \<and>
        new_console sample_env e'
          = [(''Error broadcasting to '' @ quoted ''new'' @ '':'', Thrown ''DataCloneError'')]) \<and>
   (case broadcast sample_post ''c'' None (sample_service, sample_env :: (int, nat) env) of
      (r, (this', e')) \<Rightarrow>
        isChannelActive sample_service ''c'' \<and> r = Inr () \<and> this' = sample_service \<and>
        new_console sample_env e' = [])"
proof -
  obtain r this' e' where b:
    "broadcast sample_post ''new'' (Some 0) (new_BroadcastService, sample_env :: (int, nat) env)
       = (r, (this', e'))"
    by (cases "broadcast sample_post ''new'' (Some 0)
          (new_BroadcastService, sample_env :: (int, nat) env)") auto
  have inactive: "\<not> isChannelActive new_BroadcastService ''new''"
    by (simp add: isChannelActive_def new_BroadcastService_def map_has_def)
  have fails: "sample_post (new_BroadcastChannel ''new'') (Some 0) 0
      = (Inl (Thrown ''DataCloneError''), 0)"
    by (simp add: sample_post_def)
  have names: "getActiveChannels new_BroadcastService = []"
    by (simp add: getActiveChannels_def new_BroadcastService_def map_keys_def)
  have w: "world (sample_env :: (int, nat) env) = 0"
    by (simp add: sample_env_def)
  from broadcast_never_raises [where post = sample_post and c = "''new''" and d = "Some 0"
      and this = new_BroadcastService and e = "sample_env :: (int, nat) env"] inactive
  have first: "r = Inr ()" "isChannelActive this' ''new''"
    "getActiveChannels this' = [''new'']"
    "map_get (channels this') ''new'' = Some (new_BroadcastChannel ''new'')"
    "\<forall>ch. map_get (channels this') ''new'' = Some ch \<longrightarrow>
        (case sample_post ch (Some 0) (world (sample_env :: (int, nat) env)) of
           (Inl error, w') \<Rightarrow>
             world e' = w' \<and>
             new_console sample_env e' = [(''Error broadcasting to '' @ quoted ''new'' @ '':'', error)]
         | (Inr u, w') \<Rightarrow> world e' = w' \<and> new_console sample_env e' = [])"
    by (simp_all add: b names)
  from first(4,5) have logged: "new_console sample_env e'
          = [(''Error broadcasting to '' @ quoted ''new'' @ '':'', Thrown ''DataCloneError'')]"
    by (simp add: w fails)
  obtain r2 this2 e2 where b2:
    "broadcast sample_post ''c'' None (sample_service, sample_env :: (int, nat) env)
       = (r2, (this2, e2))"
    by (cases "broadcast sample_post ''c'' None
          (sample_service, sample_env :: (int, nat) env)") auto
  have active: "isChannelActive sample_service ''c''"
    by (simp add: sample_service_value isChannelActive_def map_has_def)
  have sends: "sample_post ch None w = (Inr (), w + 1)" for ch w
    by (simp add: sample_post_def)
  from broadcast_never_raises [where post = sample_post and c = "''c''" and d = None
      and this = sample_service and e = "sample_env :: (int, nat) env"] active
  have second: "r2 = Inr ()" "this2 = sample_service"
    "isChannelActive this2 ''c''"
    "\<forall>ch. map_get (channels this2) ''c'' = Some ch \<longrightarrow>
        (case sample_post ch None (world (sample_env :: (int, nat) env)) of
           (Inl error, w') \<Rightarrow>
             world e2 = w' \<and>
             new_console sample_env e2 = [(''Error broadcasting to '' @ quoted ''c'' @ '':'', error)]
         | (Inr u, w') \<Rightarrow> world e2 = w' \<and> new_console sample_env e2 = [])"
    by (simp_all add: b2)
  from second(3) obtain ch where "map_get (channels this2) ''c'' = Some ch"
    by (auto simp: isChannelActive_def map_has_get)
  with second(4) have quiet: "new_console sample_env e2 = []"
    by (simp add: sends)
  show ?thesis
    using inactive fails first(1,2,3) logged active second(1,2) quiet
    by (simp add: b b2)
qed

subsection \<open>Listener ids\<close>

lemma digit_inj:
  assumes "a < 10" and "b < 10" and "digit a = digit b"
  shows "a = b"
proof -
  have "distinct ''0123456789''" by simp
  moreover have "a < length ''0123456789''" and "b < length ''0123456789''"
    using assms by simp_all
  ultimately show ?thesis
    using assms(3) unfolding digit_def by (simp only: nth_eq_iff_index_eq)
qed

lemma nat_to_string_nonempty: "nat_to_string n \<noteq> []"
  by (subst nat_to_string.simps) simp

lemma nat_to_string_inj: "nat_to_string m = nat_to_string n \<Longrightarrow> m = n"
proof (induction m arbitrary: n rule: nat_to_string.induct)
  case (1 m)
  show ?case
  proof (cases "m < 10")
    case small: True
    show ?thesis
    proof (cases "n < 10")
      case True
      with small "1.prems" show ?thesis
        by (simp add: nat_to_string.simps [of m] nat_to_string.simps [of n] digit_inj)
    next
      case False
      with small "1.prems" nat_to_string_nonempty [of "n div 10"] show ?thesis
        by (simp add: nat_to_string.simps [of m] nat_to_string.simps [of n])
    qed
  next
    case big: False
    show ?thesis
    proof (cases "n < 10")
      case True
      with big "1.prems" nat_to_string_nonempty [of "m div 10"] show ?thesis
        by (simp add: nat_to_string.simps [of m] nat_to_string.simps [of n])
    next
      case False
      with big "1.prems" have
        eq: "nat_to_string (m div 10) = nat_to_string (n div 10)"
        and d: "digit (m mod 10) = digit (n mod 10)"
        by (simp_all add: nat_to_string.simps [of m] nat_to_string.simps [of n])
      from "1.IH" [OF big eq] have "m div 10 = n div 10" .
      moreover from d have "m mod 10 = n mod 10"
        by (intro digit_inj) simp_all
      ultimately show ?thesis
        by (metis div_mult_mod_eq)
    qed
  qed
qed

lemma listener_id_inj: "inj listener_id"
  by (rule injI) (simp add: listener_id_def nat_to_string_inj)

lemma subscribe_counter:
  "listenerIdCounter (snd (subscribe c cb this)) = listenerIdCounter this + 1"
  by (simp add: subscribe_def Let_def split: option.splits)

lemma subscribe_id:
  "fst (subscribe c cb this) = Inr i
     \<Longrightarrow> i = listener_id (counter_value (listenerIdCounter this + 1))"
  by (auto simp: subscribe_def Let_def listener_id_def split: option.splits if_splits)

lemma counter_value_below: "k \<le> 2 ^ 53 \<Longrightarrow> counter_value k = k"
  by (simp add: counter_value_def)

lemma counter_value_above: "2 ^ 53 \<le> k \<Longrightarrow> counter_value k = 2 ^ 53"
  by (simp add: counter_value_def)

text \<open>
  Once \<open>++\<close> has been applied \<open>2^53\<close> times the number stays, and every further id is the
  one made from \<open>2^53\<close>.
\<close>

lemma subscribe_id_at_limit:
  assumes "2 ^ 53 \<le> listenerIdCounter this" and "fst (subscribe c cb this) = Inr i"
  shows "i = listener_id (2 ^ 53)"
  using subscribe_id [OF assms(2)] assms(1) by (simp add: counter_value_above)

lemma close_counter: "listenerIdCounter (snd (close c this)) = listenerIdCounter this"
  by (simp add: close_def split: option.splits)

lemma broadcast_counter:
  "listenerIdCounter (fst (snd (broadcast post c d (this, e)))) = listenerIdCounter this"
  by (simp add: broadcast_state opened_def)

lemma void_not_id: "fst (void r) \<noteq> Inr (ListenerId i)"
  by (cases "fst r") (simp_all add: void_def)

lemma returned_ids_skip:
  "(\<And>i. r \<noteq> Inr (ListenerId i)) \<Longrightarrow> returned_ids (r # rs) = returned_ids rs"
proof (cases r)
  case (Inr x)
  assume "\<And>i. r \<noteq> Inr (ListenerId i)"
  with Inr show ?thesis by (cases x) simp_all
qed simp

lemma step_counter_le:
  assumes "broadcast_step post c (this, e) = (r, (this', e'))"
  shows "listenerIdCounter this \<le> listenerIdCounter this'"
proof (cases c)
  case (Subscribe ch cb)
  with assms subscribe_counter [of ch cb this] show ?thesis
    by (auto split: prod.splits)
next
  case (Unsubscribe ch i)
  with assms unsubscribe_counter [of ch i this] show ?thesis
    by (auto simp: void_def split: prod.splits)
next
  case (Broadcast ch d)
  with assms broadcast_counter [of post ch d this e] show ?thesis
    by (auto simp: void_def)
next
  case (Close ch)
  with assms close_counter [of ch this] show ?thesis
    by (auto simp: void_def split: prod.splits)
next
  case CloseAll
  with assms show ?thesis
    by (auto simp: void_def closeAll_def)
qed

lemma step_listener_id:
  assumes "broadcast_step post c (this, e) = (Inr (ListenerId i), (this', e'))"
  shows "listenerIdCounter this' = listenerIdCounter this + 1 \<and>
         i = listener_id (counter_value (listenerIdCounter this'))"
proof (cases c)
  case (Subscribe ch cb)
  obtain r0 t0 where s: "subscribe ch cb this = (r0, t0)"
    by (cases "subscribe ch cb this")
  from assms Subscribe s have "r0 = Inr i" and "this' = t0"
    by (cases r0; simp)+
  then show ?thesis
    using subscribe_counter [of ch cb this] subscribe_id [of ch cb this i] by (simp add: s)
next
  case (Unsubscribe ch j)
  with assms have "fst (void (fst (unsubscribe ch j this), snd (unsubscribe ch j this), e))
      = Inr (ListenerId i)"
    by (simp split: prod.splits)
  then show ?thesis by (simp add: void_not_id)
next
  case (Broadcast ch d)
  with assms have "fst (void (broadcast post ch d (this, e))) = Inr (ListenerId i)"
    by simp
  then show ?thesis by (simp add: void_not_id)
next
  case (Close ch)
  with assms have "fst (void (fst (close ch this), snd (close ch this), e))
      = Inr (ListenerId i)"
    by (simp split: prod.splits)
  then show ?thesis by (simp add: void_not_id)
next
  case CloseAll
  with assms have "fst (void (fst (closeAll this), snd (closeAll this), e))
      = Inr (ListenerId i)"
    by (simp split: prod.splits)
  then show ?thesis by (simp add: void_not_id)
qed

lemma run_ids:
  assumes "broadcast_run post cs (this, e) = (rs, (this', e'))"
  shows "listenerIdCounter this \<le> listenerIdCounter this' \<and>
         (\<exists>ns. returned_ids rs = map (\<lambda>n. listener_id (counter_value n)) ns \<and>
               sorted_wrt (<) ns \<and>
               (\<forall>n \<in> set ns. listenerIdCounter this < n \<and> n \<le> listenerIdCounter this'))"
  using assms
proof (induction cs arbitrary: this e rs)
  case Nil
  then show ?case by simp
next
  case (Cons c cs)
  obtain r t1 e1 where step: "broadcast_step post c (this, e) = (r, (t1, e1))"
    by (cases "broadcast_step post c (this, e)") auto
  obtain rs1 where rest: "broadcast_run post cs (t1, e1) = (rs1, (this', e'))"
    and rs: "rs = r # rs1"
    using Cons.prems step by (auto split: prod.splits)
  from Cons.IH [OF rest] obtain ns where
    le: "listenerIdCounter t1 \<le> listenerIdCounter this'"
    and ids: "returned_ids rs1 = map (\<lambda>n. listener_id (counter_value n)) ns"
    and sorted: "sorted_wrt (<) ns"
    and bounds: "\<forall>n \<in> set ns. listenerIdCounter t1 < n \<and> n \<le> listenerIdCounter this'"
    by blast
  note c1 = step_counter_le [OF step]
  show ?case
  proof (cases "\<exists>i. r = Inr (ListenerId i)")
    case True
    then obtain i where r: "r = Inr (ListenerId i)" by blast
    with step_listener_id [of post c this e i t1 e1] step
    have c1: "listenerIdCounter t1 = listenerIdCounter this + 1"
      and i: "i = listener_id (counter_value (listenerIdCounter t1))"
      by simp_all
    have "returned_ids rs
        = map (\<lambda>n. listener_id (counter_value n)) (listenerIdCounter t1 # ns)"
      by (simp add: rs r ids i)
    moreover have "sorted_wrt (<) (listenerIdCounter t1 # ns)"
      using sorted bounds by simp
    moreover have "\<forall>n \<in> set (listenerIdCounter t1 # ns).
        listenerIdCounter this < n \<and> n \<le> listenerIdCounter this'"
      using bounds le c1 by auto
    ultimately show ?thesis
      using le c1 by (intro conjI exI [of _ "listenerIdCounter t1 # ns"]) simp_all
  next
    case False
    then have same: "returned_ids rs = returned_ids rs1"
      unfolding rs by (intro returned_ids_skip) blast
    have "\<forall>n \<in> set ns. listenerIdCounter this < n \<and> n \<le> listenerIdCounter this'"
      using bounds c1 by auto
    then show ?thesis
      using le c1 ids sorted same by (intro conjI exI [of _ ns]) simp_all
  qed
qed

lemma sample_run_value:
  "fst (broadcast_run sample_post sample_calls (new_BroadcastService, sample_env :: (int, nat) env))
     = [Inr (ListenerId ''listener_1''), Inr (ListenerId ''listener_2''),
        Inr (ListenerId ''listener_3''), Inr Void, Inr Void, Inr Void,
        Inr (ListenerId ''listener_4'')]"
  by (simp add: sample_calls_def broadcast_eval)

lemma step_counter:
  assumes "broadcast_step post c (this, e) = (r, (this', e'))"
  shows "listenerIdCounter this' = listenerIdCounter this + (if is_subscribe c then 1 else 0)"
proof (cases c)
  case (Subscribe ch cb)
  with assms subscribe_counter [of ch cb this] show ?thesis
    by (auto split: prod.splits)
next
  case (Unsubscribe ch i)
  with assms unsubscribe_counter [of ch i this] show ?thesis
    by (auto simp: void_def split: prod.splits)
next
  case (Broadcast ch d)
  with assms broadcast_counter [of post ch d this e] show ?thesis
    by (auto simp: void_def)
next
  case (Close ch)
  with assms close_counter [of ch this] show ?thesis
    by (auto simp: void_def split: prod.splits)
next
  case CloseAll
  with assms show ?thesis
    by (auto simp: void_def closeAll_def)
qed

lemma run_counter:
  assumes "broadcast_run post cs (this, e) = (rs, (this', e'))"
  shows "listenerIdCounter this' = listenerIdCounter this + subscribes cs"
  using assms
proof (induction cs arbitrary: this e rs)
  case Nil
  then show ?case by (simp add: subscribes_def)
next
  case (Cons c cs)
  obtain r t1 e1 where step: "broadcast_step post c (this, e) = (r, (t1, e1))"
    by (cases "broadcast_step post c (this, e)") auto
  obtain rs1 where rest: "broadcast_run post cs (t1, e1) = (rs1, (this', e'))"
    using Cons.prems step by (auto split: prod.splits)
  from Cons.IH [OF rest] step_counter [OF step] show ?case
    by (simp add: subscribes_def)
qed

text \<open>
  Claim C7. For every sequence of calls on a new \<open>BroadcastService\<close> (\<open>subscribe\<close> with
  any channels and callbacks, repeated or not, mixed with \<open>unsubscribe\<close>, \<open>broadcast\<close>,
  \<open>close\<close> and \<open>closeAll\<close>) that holds at most \<open>2^53\<close> calls of \<open>subscribe\<close>, the
  listener ids that \<open>subscribe\<close> returned are pairwise distinct: they are \<open>listener_\<close>
  followed by the decimal digits of strictly increasing values of the counter. In every
  state in which the counter is below \<open>2^53\<close>, \<open>subscribe\<close> adds one to it, and an id it
  returns is made from the new value.
\<close>

theorem listener_ids_distinct:
  assumes "subscribes cs \<le> 2 ^ 53"
  shows "(case broadcast_run post cs (new_BroadcastService, e0) of (rs, (this, e)) \<Rightarrow>
      distinct (returned_ids rs) \<and>
      (\<exists>ns. returned_ids rs = map listener_id ns \<and> sorted_wrt (<) ns \<and>
            set ns \<subseteq> {1..counter_value (listenerIdCounter this)})) \<and>
   (listenerIdCounter this0 < 2 ^ 53 \<longrightarrow>
      counter_value (listenerIdCounter (snd (subscribe c cb this0)))
        = counter_value (listenerIdCounter this0) + 1 \<and>
      (\<forall>i. fst (subscribe c cb this0) = Inr i \<longrightarrow>
           i = listener_id (counter_value (listenerIdCounter this0) + 1)))"
proof -
  obtain rs this e where run: "broadcast_run post cs (new_BroadcastService, e0) = (rs, (this, e))"
    by (cases "broadcast_run post cs (new_BroadcastService, e0)") auto
  from run_counter [OF run] assms have limit: "listenerIdCounter this \<le> 2 ^ 53"
    by (simp add: new_BroadcastService_def)
  from run_ids [OF run] obtain ns where
    ids: "returned_ids rs = map (\<lambda>n. listener_id (counter_value n)) ns"
    and sorted: "sorted_wrt (<) ns"
    and bounds: "\<forall>n \<in> set ns. listenerIdCounter new_BroadcastService < n \<and> n \<le> listenerIdCounter this"
    by blast
  from bounds limit have "\<forall>n \<in> set ns. counter_value n = n"
    by (auto simp: counter_value_def)
  with ids have ids': "returned_ids rs = map listener_id ns"
    by simp
  from sorted have "distinct ns"
    by (simp add: strict_sorted_iff)
  then have "distinct (returned_ids rs)"
    by (simp add: ids' distinct_map inj_on_subset [OF listener_id_inj subset_UNIV])
  moreover have "set ns \<subseteq> {1..counter_value (listenerIdCounter this)}"
    using bounds limit by (auto simp: new_BroadcastService_def counter_value_below)
  ultimately have first: "distinct (returned_ids rs) \<and>
      (\<exists>ns. returned_ids rs = map listener_id ns \<and> sorted_wrt (<) ns \<and>
            set ns \<subseteq> {1..counter_value (listenerIdCounter this)})"
    using ids' sorted by blast
  have second: "listenerIdCounter this0 < 2 ^ 53 \<longrightarrow>
      counter_value (listenerIdCounter (snd (subscribe c cb this0)))
        = counter_value (listenerIdCounter this0) + 1 \<and>
      (\<forall>i. fst (subscribe c cb this0) = Inr i \<longrightarrow>
           i = listener_id (counter_value (listenerIdCounter this0) + 1))"
  proof
    assume below: "listenerIdCounter this0 < 2 ^ 53"
    show "counter_value (listenerIdCounter (snd (subscribe c cb this0)))
        = counter_value (listenerIdCounter this0) + 1 \<and>
      (\<forall>i. fst (subscribe c cb this0) = Inr i \<longrightarrow>
           i = listener_id (counter_value (listenerIdCounter this0) + 1))"
      using subscribe_id [of c cb this0] below
      by (simp add: subscribe_counter counter_value_def)
  qed
  from first second show ?thesis
    by (simp add: run)
qed

theorem listener_ids_distinct_witness:
  "subscribes sample_calls \<le> 2 ^ 53 \<and>
   (case broadcast_run sample_post sample_calls (new_BroadcastService, sample_env :: (int, nat) env) of
      (rs, (this, e)) \<Rightarrow>
        returned_ids rs = [''listener_1'', ''listener_2'', ''listener_3'', ''listener_4''] \<and>
        distinct (returned_ids rs)) \<and>
   listenerIdCounter sample_service < 2 ^ 53 \<and>
   fst (subscribe ''d'' 4 sample_service) = Inr ''listener_4'' \<and>
   counter_value (listenerIdCounter sample_service) = 3 \<and>
   counter_value (listenerIdCounter (snd (subscribe ''d'' 4 sample_service))) = 4 \<and>
   ''listener_4'' = listener_id 4"
proof -
  obtain rs this e where run:
    "broadcast_run sample_post sample_calls (new_BroadcastService, sample_env :: (int, nat) env)
       = (rs, (this, e))"
    by (cases "broadcast_run sample_post sample_calls
          (new_BroadcastService, sample_env :: (int, nat) env)") auto
  then have "rs = [Inr (ListenerId ''listener_1''), Inr (ListenerId ''listener_2''),
        Inr (ListenerId ''listener_3''), Inr Void, Inr Void, Inr Void,
        Inr (ListenerId ''listener_4'')]"
    using sample_run_value by simp
  then have ids: "returned_ids rs = [''listener_1'', ''listener_2'', ''listener_3'', ''listener_4'']"
    by simp
  have few: "subscribes sample_calls \<le> 2 ^ 53"
    by (simp add: subscribes_def sample_calls_def)
  have returned: "fst (subscribe ''d'' 4 sample_service) = Inr ''listener_4''"
    unfolding sample_service_value by (simp add: broadcast_eval)
  have before: "listenerIdCounter sample_service = 3"
    by (simp add: sample_service_value)
  then have below: "listenerIdCounter sample_service < 2 ^ 53"
    and held: "counter_value (listenerIdCounter sample_service) = 3"
    by (simp_all add: counter_value_def)
  note inst = listener_ids_distinct [OF few, where post = sample_post
      and ?e0.0 = "sample_env :: (int, nat) env" and c = "''d''" and cb = 4
      and ?this0.0 = sample_service, unfolded run prod.case]
  from inst have d: "distinct (returned_ids rs)"
    by simp
  from inst below held
  have after: "counter_value (listenerIdCounter (snd (subscribe ''d'' 4 sample_service))) = 4"
    by simp
  from inst below held returned have made: "''listener_4'' = listener_id 4"
    by simp
  show ?thesis
    unfolding run prod.case
    using few ids d below returned held after made by simp
qed

subsection \<open>Channels with a handle and no adapter map\<close>

lemma keys_ok_new: "keys_ok new_BroadcastService"
  by (simp add: keys_ok_def new_BroadcastService_def map_keys_def)

lemma keys_ok_subscribe: "keys_ok this \<Longrightarrow> keys_ok (snd (subscribe c cb this))"
  by (auto simp: keys_ok_def subscribe_def Let_def set_keys_map_set split: option.splits)

lemma keys_ok_unsubscribe: "keys_ok this \<Longrightarrow> keys_ok (snd (unsubscribe c i this))"
  by (simp add: keys_ok_def unsubscribe_listener_keys
      unsubscribe_active [unfolded getActiveChannels_def])

lemma keys_ok_opened: "keys_ok this \<Longrightarrow> keys_ok (opened this c)"
  by (auto simp: keys_ok_def opened_def set_keys_map_set)

lemma keys_ok_close: "keys_ok this \<Longrightarrow> keys_ok (snd (close c this))"
  by (auto simp: keys_ok_def close_def set_keys_map_delete split: option.splits)

lemma keys_ok_closeAll: "keys_ok (snd (closeAll this))"
  by (simp add: keys_ok_def closeAll_def map_keys_def)

lemma keys_ok_step:
  assumes "keys_ok (fst st)"
  shows "keys_ok (fst (snd (broadcast_step post c st)))"
proof (cases st)
  case (Pair this e)
  with assms have ok: "keys_ok this" by simp
  show ?thesis
  proof (cases c)
    case (Subscribe ch cb)
    with keys_ok_subscribe [OF ok, of ch cb] show ?thesis
      by (auto simp: Pair split: prod.splits)
  next
    case (Unsubscribe ch i)
    with keys_ok_unsubscribe [OF ok, of ch i] show ?thesis
      by (auto simp: Pair void_def split: prod.splits)
  next
    case (Broadcast ch d)
    with keys_ok_opened [OF ok, of ch] show ?thesis
      by (simp add: Pair void_def broadcast_state)
  next
    case (Close ch)
    with keys_ok_close [OF ok, of ch] show ?thesis
      by (auto simp: Pair void_def split: prod.splits)
  next
    case CloseAll
    with keys_ok_closeAll [of this] show ?thesis
      by (auto simp: Pair void_def split: prod.splits)
  qed
qed

lemma keys_ok_run:
  "keys_ok (fst st) \<Longrightarrow> keys_ok (fst (snd (broadcast_run post cs st)))"
proof (induction cs arbitrary: st)
  case Nil
  then show ?case by simp
next
  case (Cons c cs)
  from Cons.IH [OF keys_ok_step [OF Cons.prems, of post c]]
  show ?case by (auto split: prod.splits)
qed

text \<open>
  \<open>subscribe(c, cb)\<close> on a channel that has a handle and no adapter map raises
  \<open>TypeError\<close> and leaves the channel in that state.
\<close>

lemma handle_only_subscribe_same:
  assumes "handle_only this c"
  shows "fst (subscribe c cb this) = Inl TypeError"
    and "handle_only (snd (subscribe c cb this)) c"
proof -
  from assms obtain ch where ch: "map_get (channels this) c = Some ch"
    and ls: "map_get (chan_listeners this) c = None"
    by (auto simp: handle_only_def map_has_get)
  then show "fst (subscribe c cb this) = Inl TypeError"
    by (simp add: subscribe_def Let_def map_has_get)
  from ch ls show "handle_only (snd (subscribe c cb this)) c"
    by (simp add: subscribe_def Let_def map_has_get handle_only_def map_get_set_same)
qed

lemma handle_only_subscribe_other:
  assumes "handle_only this c" and "c' \<noteq> c"
  shows "handle_only (snd (subscribe c' cb this)) c"
  using assms
  by (auto simp: subscribe_def Let_def handle_only_def map_has_get map_get_set_same
      map_get_set_other split: option.splits)

lemma handle_only_subscribe:
  "handle_only this c \<Longrightarrow> handle_only (snd (subscribe c' cb this)) c"
  by (cases "c' = c") (simp_all add: handle_only_subscribe_same handle_only_subscribe_other)

lemma handle_only_unsubscribe:
  "handle_only this c \<Longrightarrow> handle_only (snd (unsubscribe c' i this)) c"
  using unsubscribe_active [of c' i this] unsubscribe_listener_keys [of c' i this]
  by (simp add: handle_only_def map_has_keys getActiveChannels_def)

lemma handle_only_opened: "handle_only this c \<Longrightarrow> handle_only (opened this c') c"
  by (auto simp: handle_only_def opened_def map_has_keys set_keys_map_set)

lemma close_handle_only: "handle_only this c \<Longrightarrow> snd (close c this) = this"
  by (auto simp: handle_only_def close_def map_has_get split: option.splits)

lemma handle_only_close:
  assumes "handle_only this c"
  shows "handle_only (snd (close c' this)) c"
proof (cases "c' = c")
  case True
  with assms show ?thesis by (simp add: close_handle_only)
next
  case False
  with assms show ?thesis
    by (auto simp: handle_only_def close_def map_has_keys set_keys_map_delete
        split: option.splits)
qed

lemma handle_only_step:
  assumes "handle_only this c" and "bc \<noteq> CloseAll"
  shows "handle_only (fst (snd (broadcast_step post bc (this, e)))) c"
proof (cases bc)
  case (Subscribe ch cb)
  with handle_only_subscribe [OF assms(1), of ch cb] show ?thesis
    by (auto split: prod.splits)
next
  case (Unsubscribe ch i)
  with handle_only_unsubscribe [OF assms(1), of ch i] show ?thesis
    by (auto simp: void_def split: prod.splits)
next
  case (Broadcast ch d)
  with handle_only_opened [OF assms(1), of ch] show ?thesis
    by (simp add: void_def broadcast_state)
next
  case (Close ch)
  with handle_only_close [OF assms(1), of ch] show ?thesis
    by (auto simp: void_def split: prod.splits)
next
  case CloseAll
  with assms(2) show ?thesis by simp
qed

lemma broadcast_unknown_handle_only:
  assumes "keys_ok this" and "\<not> isChannelActive this c"
  shows "handle_only (fst (snd (broadcast post c d (this, e)))) c"
  using assms
  by (auto simp: broadcast_state opened_def handle_only_def keys_ok_def isChannelActive_def
      map_has_keys set_keys_map_set)

lemma closeAll_inactive: "\<not> isChannelActive (snd (closeAll this)) c"
  by (simp add: closeAll_def isChannelActive_def map_has_def)

text \<open>
  In every state that a \<open>BroadcastService\<close> reaches from a new one, every key of the
  map of adapters is a key of the map of handles. The converse fails: \<open>broadcast(c, d)\<close>
  on a channel that is not active leaves \<open>c\<close> with a handle and without an entry in the
  map of adapters. A channel in that state stays in it under every call other than
  \<open>closeAll()\<close>: \<open>close(c)\<close> changes nothing, \<open>subscribe(c, cb)\<close> raises. After
  \<open>closeAll()\<close> the channel is not active.
\<close>

theorem handle_only_persists:
  "(case broadcast_run post cs (new_BroadcastService, e0) of (rs, (this, e)) \<Rightarrow>
      set (map_keys (chan_listeners this)) \<subseteq> set (map_keys (channels this)) \<and>
      (\<not> isChannelActive this c \<longrightarrow>
         handle_only (fst (snd (broadcast post c d (this, e)))) c)) \<and>
   (handle_only this1 c \<longrightarrow>
      (\<forall>bc. bc \<noteq> CloseAll \<longrightarrow>
         handle_only (fst (snd (broadcast_step post bc (this1, e1)))) c) \<and>
      snd (close c this1) = this1 \<and>
      \<not> isChannelActive (snd (closeAll this1)) c)"
proof -
  obtain rs this e where run: "broadcast_run post cs (new_BroadcastService, e0) = (rs, (this, e))"
    by (cases "broadcast_run post cs (new_BroadcastService, e0)") auto
  have ok: "keys_ok this"
    using keys_ok_run [of "(new_BroadcastService, e0)" post cs] by (simp add: keys_ok_new run)
  then have "set (map_keys (chan_listeners this)) \<subseteq> set (map_keys (channels this))"
    by (simp add: keys_ok_def)
  moreover have "\<not> isChannelActive this c \<longrightarrow>
         handle_only (fst (snd (broadcast post c d (this, e)))) c"
    using broadcast_unknown_handle_only [OF ok] by blast
  ultimately show ?thesis
    by (simp add: run handle_only_step close_handle_only closeAll_inactive)
qed

theorem handle_only_persists_example:
  "(case broadcast_run sample_post [Subscribe ''c'' 2]
           (new_BroadcastService, sample_env :: (int, nat) env) of
      (rs, (this, e)) \<Rightarrow>
        set (map_keys (chan_listeners this)) \<subseteq> set (map_keys (channels this)) \<and>
        \<not> isChannelActive this ''n'' \<and>
        (case broadcast sample_post ''n'' (Some 5) (this, e) of
           (r, (this1, e1)) \<Rightarrow>
             handle_only this1 ''n'' \<and>
             getActiveChannels this1 = [''c'', ''n''] \<and>
             map_keys (chan_listeners this1) = [''c''] \<and>
             handle_only (fst (snd (broadcast_step sample_post (Close ''n'') (this1, e1)))) ''n'' \<and>
             handle_only (fst (snd (broadcast_step sample_post (Subscribe ''n'' 3) (this1, e1)))) ''n'' \<and>
             snd (close ''n'' this1) = this1 \<and>
             \<not> isChannelActive (snd (closeAll this1)) ''n''))"
proof -
  obtain rs this e where run:
    "broadcast_run sample_post [Subscribe ''c'' 2]
       (new_BroadcastService, sample_env :: (int, nat) env) = (rs, (this, e))"
    by (cases "broadcast_run sample_post [Subscribe ''c'' 2]
          (new_BroadcastService, sample_env :: (int, nat) env)") auto
  obtain r this1 e1 where b: "broadcast sample_post ''n'' (Some 5) (this, e) = (r, (this1, e1))"
    by (cases "broadcast sample_post ''n'' (Some 5) (this, e)") auto
  have v: "fst (snd (broadcast_run sample_post [Subscribe ''c'' 2]
       (new_BroadcastService, sample_env :: (int, nat) env)))
     = \<lparr>channels = [(''c'', \<lparr>bc_name = ''c'',
            bc_listeners = [\<lparr>h_id = 1, h_callback = 2, h_channelName = ''c''\<rparr>]\<rparr>)],
        chan_listeners = [(''c'', [(''listener_1'', \<lparr>h_id = 1, h_callback = 2, h_channelName = ''c''\<rparr>)])],
        listenerIdCounter = 1\<rparr>"
    by (simp add: broadcast_eval)
  from v [unfolded run] have st: "this = \<lparr>channels = [(''c'', \<lparr>bc_name = ''c'',
            bc_listeners = [\<lparr>h_id = 1, h_callback = 2, h_channelName = ''c''\<rparr>]\<rparr>)],
        chan_listeners = [(''c'', [(''listener_1'', \<lparr>h_id = 1, h_callback = 2, h_channelName = ''c''\<rparr>)])],
        listenerIdCounter = 1\<rparr>"
    by simp
  have inactive: "\<not> isChannelActive this ''n''"
    by (simp add: st isChannelActive_def map_has_def)
  have names: "getActiveChannels this = [''c'']" "map_keys (chan_listeners this) = [''c'']"
    by (simp_all add: st getActiveChannels_def map_keys_def)
  note inst = handle_only_persists [where post = sample_post and cs = "[Subscribe ''c'' 2]"
      and ?e0.0 = "sample_env :: (int, nat) env" and c = "''n''" and d = "Some 5"
      and ?this1.0 = this1 and ?e1.0 = e1, unfolded run prod.case]
  from inst inactive
  have inv: "set (map_keys (chan_listeners this)) \<subseteq> set (map_keys (channels this))"
    and ho: "handle_only this1 ''n''"
    by (simp_all add: b)
  from inst ho
  have stays: "\<forall>bc. bc \<noteq> CloseAll \<longrightarrow>
         handle_only (fst (snd (broadcast_step sample_post bc (this1, e1)))) ''n''"
    and closes: "snd (close ''n'' this1) = this1"
      "\<not> isChannelActive (snd (closeAll this1)) ''n''"
    by simp_all
  from stays have s1:
    "handle_only (fst (snd (broadcast_step sample_post (Close ''n'') (this1, e1)))) ''n''"
    and s2:
    "handle_only (fst (snd (broadcast_step sample_post (Subscribe ''n'' 3) (this1, e1)))) ''n''"
    by blast+
  have st1: "this1 = opened this ''n''"
    using broadcast_state(2) [of sample_post "''n''" "Some 5" this e] by (simp add: b)
  have names1: "getActiveChannels this1 = [''c'', ''n'']" "map_keys (chan_listeners this1) = [''c'']"
    by (simp_all add: st1 st opened_def getActiveChannels_def map_keys_def map_has_def
        map_set_def)
  show ?thesis
    unfolding run prod.case b
    using inv inactive ho names1 s1 s2 closes
    by simp
qed

text \<open>
  Claim C10 has a channel, once \<open>broadcast\<close> has opened its handle without an adapter
  map, stay in that state until a later \<open>subscribe(c, ...)\<close> or \<open>closeAll()\<close>. On a new
  service, after \<open>broadcast('n', 5)\<close>, the call \<open>subscribe('n', cb)\<close> raises \<open>TypeError\<close>
  and the channel is still in that state: the counter has moved to \<open>1\<close>, the adapter
  is registered on the handle, no id was returned and no adapter map was made.
\<close>

theorem subscribe_after_broadcast_only:
  "case broadcast sample_post ''n'' (Some 5) (new_BroadcastService, sample_env) of
     (r, (this, e)) \<Rightarrow>
       r = Inr () \<and> handle_only this ''n'' \<and>
       (case subscribe ''n'' 2 this of
          (r', this') \<Rightarrow>
            r' = Inl TypeError \<and> handle_only this' ''n'' \<and>
            this' =
              \<lparr>channels =
                 [(''n'', \<lparr>bc_name = ''n'',
                           bc_listeners =
                             [\<lparr>h_id = 1, h_callback = 2, h_channelName = ''n''\<rparr>]\<rparr>)],
               chan_listeners = [],
               listenerIdCounter = 1\<rparr>)"
  by (simp add: broadcast_def sample_post_def new_BroadcastService_def sample_env_def
      map_has_def map_get_def map_set_def try_catch_def postMessage_def subscribe_def
      handle_only_def new_BroadcastChannel_def addEventListener_def set_add_def Let_def)

subsection \<open>close\<close>

text \<open>
  \<open>close(c)\<close> on a channel that has a handle and an adapter map removes both, and a
  \<open>broadcast\<close> after it makes the channel active again.
\<close>

lemma close_subscribed_channel:
  assumes "map_has (channels this) c" and "map_has (chan_listeners this) c"
  shows "\<not> isChannelActive (snd (close c this)) c"
    and "c \<notin> set (getActiveChannels (snd (close c this)))"
    and "map_get (chan_listeners (snd (close c this))) c = None"
    and "isChannelActive (fst (snd (broadcast post c d (snd (close c this), e)))) c"
proof -
  from assms obtain ch ls where "map_get (channels this) c = Some ch"
    and "map_get (chan_listeners this) c = Some ls"
    by (auto simp: map_has_get)
  then have eq: "snd (close c this) =
      this\<lparr>channels := map_delete (channels this) c,
           chan_listeners := map_delete (chan_listeners this) c\<rparr>"
    by (simp add: close_def)
  show "\<not> isChannelActive (snd (close c this)) c"
    by (simp add: eq isChannelActive_def map_has_get map_get_delete_same)
  then show "c \<notin> set (getActiveChannels (snd (close c this)))"
    by (simp add: isChannelActive_def getActiveChannels_def map_has_keys)
  show "map_get (chan_listeners (snd (close c this))) c = None"
    by (simp add: eq map_get_delete_same)
  show "isChannelActive (fst (snd (broadcast post c d (snd (close c this), e)))) c"
    using opened_has [of "snd (close c this)" c]
    by (auto simp: broadcast_state isChannelActive_def map_has_get)
qed

text \<open>
  Claim C1 asks that \<open>close(c)\<close> takes every active channel \<open>c\<close> out of
  \<open>getActiveChannels()\<close>, also one that only \<open>broadcast\<close> made active. On a new service,
  after \<open>broadcast('new', 5)\<close>, the call \<open>close('new')\<close> returns normally and changes
  nothing: the channel is still active and still listed.
\<close>

theorem close_after_broadcast_only:
  "case broadcast sample_post ''new'' (Some 5) (new_BroadcastService, sample_env) of
     (r, (this, e)) \<Rightarrow>
       r = Inr () \<and> isChannelActive this ''new'' \<and>
       (case close ''new'' this of
          (r', this') \<Rightarrow>
            r' = Inr () \<and> this' = this \<and> isChannelActive this' ''new'' \<and>
            getActiveChannels this' = [''new''])"
  by (simp add: broadcast_def sample_post_def new_BroadcastService_def sample_env_def
      map_has_def map_get_def map_set_def try_catch_def postMessage_def close_def
      isChannelActive_def getActiveChannels_def map_keys_def new_BroadcastChannel_def)

end
